theory Spec2Isabelle
  imports Main "HOL-Library.Word"
begin

section \<open>The SSH outbound of proxy/ssh/client.go\<close>

text \<open>
  The development follows \<^verbatim>\<open>src/proxy/ssh/client.go\<close>: the \<^verbatim>\<open>Client\<close> struct, its
  \<^verbatim>\<open>Init\<close>, \<^verbatim>\<open>connect\<close>, \<^verbatim>\<open>Process\<close> and \<^verbatim>\<open>Close\<close> methods. Go strings and byte
  slices are byte sequences, here \<^typ>\<open>string\<close> (a list of 8-bit characters).
\<close>

subsection \<open>Errors\<close>

text \<open>
  \<^verbatim>\<open>newError(values...)\<close> builds an error whose message is the concatenation of its
  arguments; \<^verbatim>\<open>Base\<close> attaches the underlying error, \<^verbatim>\<open>AtWarning\<close> and \<^verbatim>\<open>AtInfo\<close> set
  the severity. An error coming from a library (the dialer, the ssh package) is kept
  by its text.
\<close>

datatype Severity = Severity_Unset | Severity_Warning | Severity_Info

datatype Error =
    ExternalError string
  | Error (message: string) (severity: Severity) (inner: "Error option")

definition newError :: "string list \<Rightarrow> Error" where
  "newError values = Error (concat values) Severity_Unset None"

fun Base :: "Error \<Rightarrow> Error \<Rightarrow> Error" where
  "Base (Error m s i) e = Error m s (Some e)"
| "Base (ExternalError t) e = ExternalError t"

fun AtWarning :: "Error \<Rightarrow> Error" where
  "AtWarning (Error m s i) = Error m Severity_Warning i"
| "AtWarning (ExternalError t) = ExternalError t"

fun AtInfo :: "Error \<Rightarrow> Error" where
  "AtInfo (Error m s i) = Error m Severity_Info i"
| "AtInfo (ExternalError t) = ExternalError t"

subsection \<open>Keys, credentials and configuration\<close>

text \<open>An \<^verbatim>\<open>ssh.PublicKey\<close> is used through its two methods \<^verbatim>\<open>Type()\<close> and \<^verbatim>\<open>Marshal()\<close>.\<close>

record PublicKey =
  Type :: string
  Marshal :: string

datatype Signer = Signer string

datatype AuthMethod = PublicKeys Signer | Password string

datatype Network = Network_TCP | Network_Other nat

record Destination =
  Network :: Network
  Address :: string
  Port :: "16 word"

record Timeouts =
  ConnectionIdle :: nat
  UplinkOnly :: nat
  DownlinkOnly :: nat

record Config =
  Config_Address :: string
  Config_Port :: "32 word"
  User :: string
  Password :: string
  PrivateKey :: string
  PublicKey :: string
  UserLevel :: "32 word"

text \<open>
  The functions of \<^verbatim>\<open>golang.org/x/crypto/ssh\<close> and of the standard library that
  \<^verbatim>\<open>Init\<close> calls and whose code is outside the repository are parameters: the two
  private-key parsers, the authorized-key parser and \<^verbatim>\<open>strings.TrimSpace\<close>. A parser
  returns the text of its error on the left.
\<close>

record Lib =
  ParsePrivateKey :: "string \<Rightarrow> string + Signer"
  ParsePrivateKeyWithPassphrase :: "string \<Rightarrow> string \<Rightarrow> string + Signer"
  ParseAuthorizedKey :: "string \<Rightarrow> string + PublicKey"
  TrimSpace :: "string \<Rightarrow> string"

text \<open>
  A host key callback receives the host name, the remote address and the presented
  key; it returns the records it wrote to the log and its error (\<open>None\<close> is \<^verbatim>\<open>nil\<close>).
\<close>

type_synonym HostKeyCallback = "string \<Rightarrow> string \<Rightarrow> PublicKey \<Rightarrow> Error list \<times> Error option"

text \<open>
  The \<^verbatim>\<open>Client\<close> struct. \<open>Mutex\<close> is the embedded \<^verbatim>\<open>sync.Mutex\<close> (\<open>True\<close> when
  locked), \<open>client\<close> the pointer to the shared \<^verbatim>\<open>ssh.Client\<close> (\<open>None\<close> is \<^verbatim>\<open>nil\<close>, an
  ssh client is named by a number).
\<close>

record Client =
  Mutex :: bool
  sessionPolicy :: Timeouts
  server :: Destination
  client :: "nat option"
  username :: string
  auth :: "AuthMethod list"
  hostKeyCallback :: "HostKeyCallback option"

text \<open>The zero value \<^verbatim>\<open>&Client{}\<close> that the registered constructor passes to \<^verbatim>\<open>Init\<close>.\<close>

definition zero_Client :: Client where
  "zero_Client =
     \<lparr>Mutex = False,
      sessionPolicy = \<lparr>ConnectionIdle = 0, UplinkOnly = 0, DownlinkOnly = 0\<rparr>,
      server = \<lparr>Network = Network_Other 0, Address = [], Port = 0\<rparr>,
      client = None, username = [], auth = [], hostKeyCallback = None\<rparr>"

subsection \<open>Base64 (\<^verbatim>\<open>base64.StdEncoding.EncodeToString\<close>)\<close>

definition encodeStd :: string where
  "encodeStd = ''ABCDEFGHIJKLMNOPQRSTUVWXYZabcdefghijklmnopqrstuvwxyz0123456789+/''"

definition b64 :: "nat \<Rightarrow> char" where
  "b64 i = encodeStd ! (i mod 64)"

fun EncodeToString :: "string \<Rightarrow> string" where
  "EncodeToString [] = []"
| "EncodeToString [a] =
     (let x = (of_char a :: nat)
      in [b64 (x div 4), b64 ((x mod 4) * 16), CHR ''='', CHR ''=''])"
| "EncodeToString [a, b] =
     (let x = (of_char a :: nat); y = (of_char b :: nat)
      in [b64 (x div 4), b64 ((x mod 4) * 16 + y div 16), b64 ((y mod 16) * 4), CHR ''=''])"
| "EncodeToString (a # b # c # rest) =
     (let x = (of_char a :: nat); y = (of_char b :: nat); z = (of_char c :: nat)
      in [b64 (x div 4), b64 ((x mod 4) * 16 + y div 16),
          b64 ((y mod 16) * 4 + z div 64), b64 (z mod 64)] @ EncodeToString rest)"

subsection \<open>Init\<close>

text \<open>\<^verbatim>\<open>strings.Split(s, "\n")\<close>: the pieces of \<open>s\<close> between line feeds.\<close>

fun Split_lines :: "string \<Rightarrow> string list" where
  "Split_lines [] = [[]]"
| "Split_lines (x # xs) =
     (if x = CHR 0x0A then [] # Split_lines xs
      else (case Split_lines xs of
              [] \<Rightarrow> [[x]]
            | l # ls \<Rightarrow> (x # l) # ls))"

text \<open>
  Lines 58 to 72: the authentication methods. The field \<open>auth\<close> is written only when
  a private key or a password is configured; a private key that does not parse ends
  \<^verbatim>\<open>Init\<close> with an error.
\<close>

definition Init_auth :: "Lib \<Rightarrow> Config \<Rightarrow> Client \<Rightarrow> Client \<times> Error option" where
  "Init_auth lib config c =
     (if PrivateKey config \<noteq> [] then
        (case (if Password config = []
               then ParsePrivateKey lib (PrivateKey config)
               else ParsePrivateKeyWithPassphrase lib (PrivateKey config) (Password config)) of
           Inl err \<Rightarrow> (c, Some (Base (newError [''parse private key'']) (ExternalError err)))
         | Inr signer \<Rightarrow> (c\<lparr>auth := [PublicKeys signer]\<rparr>, None))
      else if Password config \<noteq> [] then
        (c\<lparr>auth := [AuthMethod.Password (Password config)]\<rparr>, None)
      else (c, None))"

text \<open>
  Lines 76 to 88: the loop over the lines of the configured public keys, with the
  slice \<open>keys\<close> as accumulator. A blank line is skipped, a line that does not parse
  ends \<^verbatim>\<open>Init\<close> with an error.
\<close>

fun parse_keys :: "Lib \<Rightarrow> string list \<Rightarrow> PublicKey list \<Rightarrow> Error + PublicKey list" where
  "parse_keys lib [] keys = Inr keys"
| "parse_keys lib (str # strs) keys =
     (let str' = TrimSpace lib str
      in if str' = [] then parse_keys lib strs keys
         else (case ParseAuthorizedKey lib str' of
                 Inl err \<Rightarrow> Inl (Base (newError [err, ''parse public key'']) (ExternalError err))
               | Inr key \<Rightarrow> parse_keys lib strs (keys @ [key])))"

text \<open>Lines 74 to 89: \<open>keys\<close> stays \<^verbatim>\<open>nil\<close> (the empty list) when nothing is configured.\<close>

definition Init_keys :: "Lib \<Rightarrow> Config \<Rightarrow> Error + PublicKey list" where
  "Init_keys lib config =
     (if PublicKey config \<noteq> [] then parse_keys lib (Split_lines (PublicKey config)) []
      else Inr [])"

text \<open>Lines 91 to 98: the callback of a client with pinned keys.\<close>

fun match_keys :: "PublicKey list \<Rightarrow> PublicKey \<Rightarrow> bool" where
  "match_keys [] key = False"
| "match_keys (pk # pks) key = (if Marshal key = Marshal pk then True else match_keys pks key)"

definition pinned_callback :: "PublicKey list \<Rightarrow> HostKeyCallback" where
  "pinned_callback keys hostname remote key =
     (if match_keys keys key then ([], None)
      else ([], Some (newError [''ssh: host key mismatch, server send '', Type key, '' '',
                                EncodeToString (Marshal key)])))"

text \<open>Lines 100 to 103: the callback of a client without pinned keys.\<close>

definition permissive_callback :: HostKeyCallback where
  "permissive_callback hostname remote key =
     ([AtInfo (newError [''ssh: server send '', Type key, '' '', EncodeToString (Marshal key)])],
      None)"

text \<open>Lines 47 to 56: the session policy, the gateway and the user name.\<close>

definition Init_start :: "Config \<Rightarrow> (32 word \<Rightarrow> Timeouts) \<Rightarrow> Client \<Rightarrow> Client" where
  "Init_start config ForLevel c =
     c\<lparr>sessionPolicy := ForLevel (UserLevel config),
       server := \<lparr>Network = Network_TCP, Address = Config_Address config,
                  Port = ucast (Config_Port config)\<rparr>,
       username := (if User config = [] then ''root'' else User config)\<rparr>"

text \<open>
  \<^verbatim>\<open>Init\<close> writes the receiver as it goes and returns its error: the result is the
  receiver as \<^verbatim>\<open>Init\<close> leaves it, and the error (\<open>None\<close> is \<^verbatim>\<open>nil\<close>).
\<close>

definition Init :: "Lib \<Rightarrow> Config \<Rightarrow> (32 word \<Rightarrow> Timeouts) \<Rightarrow> Client \<Rightarrow> Client \<times> Error option" where
  "Init lib config ForLevel c =
     (case Init_auth lib config (Init_start config ForLevel c) of
        (c2, Some err) \<Rightarrow> (c2, Some err)
      | (c2, None) \<Rightarrow>
          (case Init_keys lib config of
             Inl err \<Rightarrow> (c2, Some err)
           | Inr keys \<Rightarrow>
               (if keys \<noteq> []
                then (c2\<lparr>hostKeyCallback := Some (pinned_callback keys)\<rparr>, None)
                else (c2\<lparr>hostKeyCallback := Some permissive_callback\<rparr>, None))))"

subsection \<open>The world around the client\<close>

text \<open>
  What \<^verbatim>\<open>connect\<close> and \<^verbatim>\<open>Process\<close> call outside this file is a parameter: the injected
  dialer (the outcome of its \<open>k\<close>-th call, an error text or a raw connection named by
  a number), the ssh handshake \<^verbatim>\<open>ssh.NewClientConn\<close> over a raw connection (\<open>None\<close> when
  it succeeds), \<^verbatim>\<open>Destination.IsValid\<close>, the channel open \<^verbatim>\<open>sc.Dial\<close> on an ssh client,
  the outcome of \<^verbatim>\<open>task.Run\<close> on the two copy tasks of a channel, and the error of
  \<^verbatim>\<open>sc.Close()\<close> on an ssh client.
\<close>

record ClientConfig =
  cc_User :: string
  cc_Auth :: "AuthMethod list"
  cc_HostKeyCallback :: "HostKeyCallback option"

record Env =
  Dial :: "nat \<Rightarrow> Destination \<Rightarrow> string + nat"
  NewClientConn :: "nat \<Rightarrow> string \<Rightarrow> ClientConfig \<Rightarrow> string option"
  IsValid :: "Destination \<Rightarrow> bool"
  ssh_Dial :: "nat \<Rightarrow> Destination \<Rightarrow> string + nat"
  task_Run :: "nat \<Rightarrow> Timeouts \<Rightarrow> Error option"
  ssh_Close :: "nat \<Rightarrow> Error option"

text \<open>
  The goroutine of lines 128 to 136 watches one ssh client. It is at line 129 while
  \<^verbatim>\<open>client.Wait()\<close> has not returned, then before \<^verbatim>\<open>c.Lock()\<close> (line 133), before the
  assignment \<^verbatim>\<open>c.client = nil\<close> (line 134), before \<^verbatim>\<open>c.Unlock()\<close> (line 135), and at
  its end.
\<close>

datatype wpc = W129 | W133 | W134 | W135 | W_returned

text \<open>
  The state that the methods read and write: the receiver \<open>this\<close>, the number of
  calls of the dialer so far, the delays slept by the retry strategy (milliseconds,
  in order), the number of ssh clients created so far (the next ssh client gets this
  number as its name), the ssh clients on which a channel open was attempted (in
  order), the watcher goroutines (by the ssh client they watch), and the ssh clients
  whose connection is closed.
\<close>

record World =
  this :: Client
  dials :: nat
  slept :: "nat list"
  clients :: nat
  opens :: "nat list"
  watchers :: "nat \<rightharpoonup> wpc"
  closed :: "nat set"

record Outbound =
  Target :: Destination

subsection \<open>Retry with backoff\<close>

text \<open>
  Modelled from the spec: the package \<^verbatim>\<open>common/retry\<close> (\<^verbatim>\<open>retry.ExponentialBackoff\<close> and
  the method \<^verbatim>\<open>On\<close> of its strategy) is not among the sources. The spec reads the call
  \<^verbatim>\<open>retry.ExponentialBackoff(2, 100).On(f)\<close> as: run \<open>f\<close>; on failure retry it, up to 2
  retries (3 attempts in all), sleeping the base delay of 100 ms before the first
  retry and doubling the delay at each retry; the failure of the last attempt is the
  failure of the whole. The value that the closure \<open>f\<close> assigns to a captured variable
  on success is the value returned here on the right.
\<close>

fun ExponentialBackoff_On ::
  "nat \<Rightarrow> nat \<Rightarrow> (nat \<Rightarrow> 's \<Rightarrow> 's) \<Rightarrow> ('s \<Rightarrow> (Error + 'a) \<times> 's) \<Rightarrow> 's \<Rightarrow> (Error + 'a) \<times> 's" where
  "ExponentialBackoff_On 0 delay sleep method s = method s"
| "ExponentialBackoff_On (Suc retries) delay sleep method s =
     (case method s of
        (Inr v, s') \<Rightarrow> (Inr v, s')
      | (Inl err, s') \<Rightarrow> ExponentialBackoff_On retries (2 * delay) sleep method (sleep delay s'))"

definition Sleep :: "nat \<Rightarrow> World \<Rightarrow> World" where
  "Sleep ms w = w\<lparr>slept := slept w @ [ms]\<rparr>"

subsection \<open>connect\<close>

text \<open>Lines 172 to 179: the closure given to the retry strategy, one call of the dialer.\<close>

definition dial_once :: "Env \<Rightarrow> World \<Rightarrow> (Error + nat) \<times> World" where
  "dial_once env w =
     (case Dial env (dials w) (server (this w)) of
        Inl err \<Rightarrow> (Inl (ExternalError err), w\<lparr>dials := Suc (dials w)\<rparr>)
      | Inr rawConn \<Rightarrow> (Inr rawConn, w\<lparr>dials := Suc (dials w)\<rparr>))"

definition connect :: "Env \<Rightarrow> World \<Rightarrow> (Error + nat) \<times> World" where
  "connect env w =
     (let config = \<lparr>cc_User = username (this w), cc_Auth = auth (this w),
                    cc_HostKeyCallback = hostKeyCallback (this w)\<rparr>
      in case ExponentialBackoff_On 2 100 Sleep (dial_once env) w of
           (Inl err, w1) \<Rightarrow>
             (Inl (Base (AtWarning (newError [''failed to connect to destination''])) err), w1)
         | (Inr conn, w1) \<Rightarrow>
             (case NewClientConn env conn (Address (server (this w1))) config of
                Some err \<Rightarrow> (Inl (Base (newError [''failed to ssh'']) (ExternalError err)), w1)
              | None \<Rightarrow>
                  (let new = clients w1
                   in (Inr new, w1\<lparr>clients := Suc new,
                                   this := (this w1)\<lparr>client := Some new\<rparr>\<rparr>))))"

subsection \<open>Process, one call at a time\<close>

definition Lock :: "World \<Rightarrow> World" where
  "Lock w = w\<lparr>this := (this w)\<lparr>Mutex := True\<rparr>\<rparr>"

definition Unlock :: "World \<Rightarrow> World" where
  "Unlock w = w\<lparr>this := (this w)\<lparr>Mutex := False\<rparr>\<rparr>"

text \<open>Line 128: the goroutine that waits for the end of the new ssh client is started.\<close>

definition go_watch :: "nat \<Rightarrow> World \<Rightarrow> World" where
  "go_watch new w = w\<lparr>watchers := (watchers w)(new \<mapsto> W129)\<rparr>"

text \<open>
  Lines 119 to 140, run with no other call in progress: the result is \<open>None\<close> when the
  call never returns, which is what \<^verbatim>\<open>c.Lock()\<close> does on a mutex that is locked and
  that nobody is going to unlock. Otherwise it is the ssh client to use, or the error
  that \<^verbatim>\<open>Process\<close> returns at line 126.
\<close>

definition Process_acquire :: "Env \<Rightarrow> World \<Rightarrow> ((Error + nat) \<times> World) option" where
  "Process_acquire env w =
     (case client (this w) of
        Some sc \<Rightarrow> Some (Inr sc, w)
      | None \<Rightarrow>
          (if Mutex (this w) then None
           else (let w1 = Lock w
                 in case client (this w1) of
                      Some sc \<Rightarrow> Some (Inr sc, Unlock w1)
                    | None \<Rightarrow>
                        (case connect env w1 of
                           (Inl err, w2) \<Rightarrow> Some (Inl err, w2)
                         | (Inr new, w2) \<Rightarrow> Some (Inr new, Unlock (go_watch new w2))))))"

text \<open>Lines 142 to 160: the channel open and the two copy tasks.\<close>

definition Process_relay :: "Env \<Rightarrow> nat \<Rightarrow> Destination \<Rightarrow> World \<Rightarrow> Error option \<times> World" where
  "Process_relay env sc destination w =
     (let w1 = w\<lparr>opens := opens w @ [sc]\<rparr>
      in case ssh_Dial env sc destination of
           Inl err \<Rightarrow>
             (Some (Base (newError [''failed to open ssh proxy connection'']) (ExternalError err)), w1)
         | Inr conn \<Rightarrow>
             (case task_Run env conn (sessionPolicy (this w1)) of
                Some err \<Rightarrow> (Some (Base (newError [''connection ends'']) err), w1)
              | None \<Rightarrow> (None, w1)))"

definition Process :: "Env \<Rightarrow> Outbound option \<Rightarrow> World \<Rightarrow> (Error option \<times> World) option" where
  "Process env outbound w =
     (case outbound of
        None \<Rightarrow> Some (Some (newError [''target not specified'']), w)
      | Some ob \<Rightarrow>
          (if \<not> IsValid env (Target ob) then Some (Some (newError [''target not specified'']), w)
           else if Network (Target ob) \<noteq> Network_TCP
           then Some (Some (newError [''only TCP is supported in SSH proxy'']), w)
           else (case Process_acquire env w of
                   None \<Rightarrow> None
                 | Some (Inl err, w1) \<Rightarrow> Some (Some err, w1)
                 | Some (Inr sc, w1) \<Rightarrow> Some (Process_relay env sc (Target ob) w1))))"

text \<open>
  Lines 193 to 198: \<^verbatim>\<open>Close\<close> reads the pointer and closes the ssh client it finds.
\<close>

definition Close :: "Env \<Rightarrow> World \<Rightarrow> Error option \<times> World" where
  "Close env w =
     (case client (this w) of
        Some sc \<Rightarrow> (ssh_Close env sc, w\<lparr>closed := insert sc (closed w)\<rparr>)
      | None \<Rightarrow> (None, w))"

subsection \<open>Calls that run at the same time\<close>

text \<open>
  Several calls of \<^verbatim>\<open>Process\<close> and \<^verbatim>\<open>Close\<close> and the watcher goroutines run at the same
  time: each of them goes through the places below, one atomic step at a time, and
  the steps of all of them interleave in any order; a read sees the last value
  written. The call of \<^verbatim>\<open>connect\<close> is one step: from its first dial to its assignment
  to the pointer it touches no variable that another actor reads or writes, the
  pointer apart, which it writes last. A place of \<^verbatim>\<open>Process\<close> is named by the line that is executed next and
  holds the local variables \<open>destination\<close> and \<open>sc\<close>: the checks (line 109), the read
  of the pointer without the mutex (119), \<^verbatim>\<open>c.Lock()\<close> (121), the read of the pointer
  under the mutex (122), \<^verbatim>\<open>connect\<close> (124), the start of the watcher (128),
  \<^verbatim>\<open>c.Unlock()\<close> (139), the channel open and the relay (142). \<open>Returned_126\<close> is the
  return of line 126, every other return is \<open>Returned\<close>.
\<close>

datatype pc =
    L109 "Outbound option"
  | L119 Destination
  | L121 Destination
  | L122 Destination
  | L124 Destination
  | L128 Destination nat
  | L139 Destination nat
  | L142 Destination nat
  | Returned "Error option"
  | Returned_126 Error

text \<open>The result is \<open>None\<close> when the call cannot take a step: it has returned, or it waits
  in \<^verbatim>\<open>c.Lock()\<close> for a locked mutex.\<close>

fun proc_step :: "Env \<Rightarrow> pc \<Rightarrow> World \<Rightarrow> (pc \<times> World) option" where
  "proc_step env (L109 outbound) w =
     Some (case outbound of
             None \<Rightarrow> Returned (Some (newError [''target not specified'']))
           | Some ob \<Rightarrow>
               if \<not> IsValid env (Target ob)
               then Returned (Some (newError [''target not specified'']))
               else if Network (Target ob) \<noteq> Network_TCP
               then Returned (Some (newError [''only TCP is supported in SSH proxy'']))
               else L119 (Target ob), w)"
| "proc_step env (L119 d) w =
     Some (case client (this w) of Some sc \<Rightarrow> L142 d sc | None \<Rightarrow> L121 d, w)"
| "proc_step env (L121 d) w = (if Mutex (this w) then None else Some (L122 d, Lock w))"
| "proc_step env (L122 d) w =
     Some (case client (this w) of Some sc \<Rightarrow> L139 d sc | None \<Rightarrow> L124 d, w)"
| "proc_step env (L124 d) w =
     Some (case connect env w of
             (Inl err, w') \<Rightarrow> (Returned_126 err, w')
           | (Inr new, w') \<Rightarrow> (L128 d new, w'))"
| "proc_step env (L128 d new) w = Some (L139 d new, go_watch new w)"
| "proc_step env (L139 d sc) w = Some (L142 d sc, Unlock w)"
| "proc_step env (L142 d sc) w =
     Some (case Process_relay env sc d w of (err, w') \<Rightarrow> (Returned err, w'))"
| "proc_step env (Returned err) w = None"
| "proc_step env (Returned_126 err) w = None"

text \<open>
  The watcher of the ssh client \<open>t\<close>: \<^verbatim>\<open>client.Wait()\<close> returns once the connection of
  \<open>t\<close> is closed; then the watcher takes the mutex, clears the pointer and releases
  the mutex. The record that it writes to the log at line 131 is left out.
\<close>

fun watcher_step :: "nat \<Rightarrow> wpc \<Rightarrow> World \<Rightarrow> World option" where
  "watcher_step t W129 w =
     (if t \<in> closed w then Some (w\<lparr>watchers := (watchers w)(t \<mapsto> W133)\<rparr>) else None)"
| "watcher_step t W133 w =
     (if Mutex (this w) then None
      else Some ((Lock w)\<lparr>watchers := (watchers w)(t \<mapsto> W134)\<rparr>))"
| "watcher_step t W134 w =
     Some (w\<lparr>this := (this w)\<lparr>client := None\<rparr>, watchers := (watchers w)(t \<mapsto> W135)\<rparr>)"
| "watcher_step t W135 w = Some ((Unlock w)\<lparr>watchers := (watchers w)(t \<mapsto> W_returned)\<rparr>)"
| "watcher_step t W_returned w = None"

text \<open>A call of \<^verbatim>\<open>Close\<close>: the read of the pointer (line 194), then \<^verbatim>\<open>sc.Close()\<close> (196).\<close>

datatype cpc = L194 | L196 nat | Close_returned "Error option"

fun close_step :: "Env \<Rightarrow> cpc \<Rightarrow> World \<Rightarrow> (cpc \<times> World) option" where
  "close_step env L194 w =
     Some (case client (this w) of Some sc \<Rightarrow> L196 sc | None \<Rightarrow> Close_returned None, w)"
| "close_step env (L196 sc) w =
     Some (Close_returned (ssh_Close env sc), w\<lparr>closed := insert sc (closed w)\<rparr>)"
| "close_step env (Close_returned err) w = None"

text \<open>
  The whole system: the world, the calls of \<^verbatim>\<open>Process\<close> and of \<^verbatim>\<open>Close\<close> in progress,
  and the number of calls of \<^verbatim>\<open>connect\<close> made so far.
\<close>

record System =
  world :: World
  procs :: "nat \<rightharpoonup> pc"
  closers :: "nat \<rightharpoonup> cpc"
  connects :: nat

text \<open>
  Who takes the next step: a call of \<^verbatim>\<open>Process\<close>, a watcher, a call of \<^verbatim>\<open>Close\<close>, or
  the network, which closes the connection of an ssh client.
\<close>

datatype actor = Proc nat | Watcher nat | Closer nat | Dies nat

fun is_L124 :: "pc \<Rightarrow> bool" where
  "is_L124 (L124 d) = True"
| "is_L124 p = False"

fun step :: "Env \<Rightarrow> actor \<Rightarrow> System \<Rightarrow> System option" where
  "step env (Proc i) s =
     (case procs s i of
        None \<Rightarrow> None
      | Some p \<Rightarrow>
          (case proc_step env p (world s) of
             None \<Rightarrow> None
           | Some (p', w') \<Rightarrow>
               Some (s\<lparr>world := w', procs := (procs s)(i \<mapsto> p'),
                       connects := (if is_L124 p then Suc (connects s) else connects s)\<rparr>)))"
| "step env (Watcher t) s =
     (case watchers (world s) t of
        None \<Rightarrow> None
      | Some p \<Rightarrow>
          (case watcher_step t p (world s) of
             None \<Rightarrow> None
           | Some w' \<Rightarrow> Some (s\<lparr>world := w'\<rparr>)))"
| "step env (Closer k) s =
     (case closers s k of
        None \<Rightarrow> None
      | Some p \<Rightarrow>
          (case close_step env p (world s) of
             None \<Rightarrow> None
           | Some (p', w') \<Rightarrow> Some (s\<lparr>world := w', closers := (closers s)(k \<mapsto> p')\<rparr>)))"
| "step env (Dies t) s =
     (if t < clients (world s) \<and> t \<notin> closed (world s)
      then Some (s\<lparr>world := (world s)\<lparr>closed := insert t (closed (world s))\<rparr>\<rparr>)
      else None)"

text \<open>A schedule is run step by step; it is \<open>None\<close> when one of its steps cannot be taken.\<close>

fun run :: "Env \<Rightarrow> actor list \<Rightarrow> System \<Rightarrow> System option" where
  "run env [] s = Some s"
| "run env (a # as) s = (case step env a s of None \<Rightarrow> None | Some s' \<Rightarrow> run env as s')"

text \<open>
  One call of \<^verbatim>\<open>Process\<close> run alone for at most \<open>n\<close> steps, and what the call has
  returned at the place it has reached (\<open>None\<close> when it has not returned).
\<close>

fun solo :: "Env \<Rightarrow> nat \<Rightarrow> pc \<Rightarrow> World \<Rightarrow> pc \<times> World" where
  "solo env 0 p w = (p, w)"
| "solo env (Suc n) p w =
     (case proc_step env p w of None \<Rightarrow> (p, w) | Some (p', w') \<Rightarrow> solo env n p' w')"

definition result :: "pc \<times> World \<Rightarrow> (Error option \<times> World) option" where
  "result r = (case r of
      (Returned err, w) \<Rightarrow> Some (err, w)
    | (Returned_126 err, w) \<Rightarrow> Some (Some err, w)
    | _ \<Rightarrow> None)"

text \<open>An ssh client is live when it was created and its connection is not closed.\<close>

definition live :: "World \<Rightarrow> nat \<Rightarrow> bool" where
  "live w t \<longleftrightarrow> t < clients w \<and> t \<notin> closed w"

text \<open>The places at which a call of \<^verbatim>\<open>Process\<close>, or a watcher, holds the mutex.\<close>

fun holds :: "pc \<Rightarrow> bool" where
  "holds (L122 d) = True"
| "holds (L124 d) = True"
| "holds (L128 d new) = True"
| "holds (L139 d sc) = True"
| "holds (Returned_126 err) = True"
| "holds p = False"

fun wholds :: "wpc \<Rightarrow> bool" where
  "wholds W134 = True"
| "wholds W135 = True"
| "wholds p = False"

text \<open>
  The component is idle: no shared ssh client, the mutex free, every ssh client made
  so far is closed and its watcher has ended. The system starts with an idle
  component, calls of \<^verbatim>\<open>Process\<close> that are all at their first line and calls of
  \<^verbatim>\<open>Close\<close> that are all at their first line.
\<close>

definition idle :: "World \<Rightarrow> bool" where
  "idle w \<longleftrightarrow>
     client (this w) = None \<and> \<not> Mutex (this w) \<and>
     (\<forall>t. t < clients w \<longrightarrow> t \<in> closed w) \<and>
     (\<forall>t p. watchers w t = Some p \<longrightarrow> t < clients w \<and> p = W_returned)"

definition start :: "System \<Rightarrow> bool" where
  "start s \<longleftrightarrow>
     idle (world s) \<and>
     (\<forall>i p. procs s i = Some p \<longrightarrow> (\<exists>outbound. p = L109 outbound)) \<and>
     (\<forall>k p. closers s k = Some p \<longrightarrow> p = L194)"

text \<open>The actor holds the mutex: it is between its \<^verbatim>\<open>c.Lock()\<close> and its \<^verbatim>\<open>c.Unlock()\<close>.\<close>

fun holder :: "System \<Rightarrow> actor \<Rightarrow> bool" where
  "holder s (Proc i) = (case procs s i of None \<Rightarrow> False | Some p \<Rightarrow> holds p)"
| "holder s (Watcher t) = (case watchers (world s) t of None \<Rightarrow> False | Some p \<Rightarrow> wholds p)"
| "holder s (Closer k) = False"
| "holder s (Dies t) = False"

text \<open>
  What holds of the system at every moment of a run from a start. For the mutex:
  it is locked when an actor holds it, and no two actors hold it.
\<close>

definition mutex_inv :: "System \<Rightarrow> bool" where
  "mutex_inv s \<longleftrightarrow>
     (\<forall>a. holder s a \<longrightarrow> Mutex (this (world s))) \<and>
     (\<forall>a b. holder s a \<and> holder s b \<longrightarrow> a = b)"

text \<open>
  For the pointer: a live ssh client is the shared one; the shared ssh client is one
  that was created; the pointer is \<^verbatim>\<open>nil\<close> when a
  call is about to connect; the new ssh client is the shared one, and is not watched
  yet, when a call is about to start its watcher; a watcher that has not cleared the
  pointer yet watches the shared ssh client; a watcher that is past \<^verbatim>\<open>client.Wait()\<close>
  watches a closed ssh client.
\<close>

definition pointer_inv :: "System \<Rightarrow> bool" where
  "pointer_inv s \<longleftrightarrow>
     (\<forall>t. live (world s) t \<longrightarrow> client (this (world s)) = Some t) \<and>
     (\<forall>t. client (this (world s)) = Some t \<longrightarrow> t < clients (world s)) \<and>
     (\<forall>i d. procs s i = Some (L124 d) \<longrightarrow> client (this (world s)) = None) \<and>
     (\<forall>i d new. procs s i = Some (L128 d new) \<longrightarrow>
        client (this (world s)) = Some new \<and> watchers (world s) new = None) \<and>
     (\<forall>t p. watchers (world s) t = Some p \<longrightarrow> t < clients (world s)) \<and>
     (\<forall>t p. watchers (world s) t = Some p \<and> p \<in> {W129, W133, W134} \<longrightarrow>
        client (this (world s)) = Some t) \<and>
     (\<forall>t p. watchers (world s) t = Some p \<and> p \<in> {W133, W134} \<longrightarrow> t \<in> closed (world s))"

definition inv :: "System \<Rightarrow> bool" where
  "inv s \<longleftrightarrow> mutex_inv s \<and> pointer_inv s"







text \<open>The number of steps that a call of \<^verbatim>\<open>Process\<close> has before it at most.\<close>

fun rank :: "pc \<Rightarrow> nat" where
  "rank (L109 outbound) = 8"
| "rank (L119 d) = 7"
| "rank (L121 d) = 6"
| "rank (L122 d) = 5"
| "rank (L124 d) = 4"
| "rank (L128 d new) = 3"
| "rank (L139 d sc) = 2"
| "rank (L142 d sc) = 1"
| "rank (Returned err) = 0"
| "rank (Returned_126 err) = 0"

subsection \<open>Example inputs\<close>

definition isSpace :: "char \<Rightarrow> bool" where
  "isSpace ch = (ch \<in> set [CHR 0x09, CHR 0x0A, CHR 0x0B, CHR 0x0C, CHR 0x0D, CHR 0x20])"

definition example_Lib :: Lib where
  "example_Lib =
     \<lparr>ParsePrivateKey =
        (\<lambda>pem. if pem = ''PEM'' then Inr (Signer pem) else Inl ''ssh: no key found''),
      ParsePrivateKeyWithPassphrase =
        (\<lambda>pem pass. if pem = ''ENCRYPTED PEM'' \<and> pass = ''secret'' then Inr (Signer pem)
                     else Inl ''x509: decryption password incorrect''),
      ParseAuthorizedKey =
        (\<lambda>line. if line = ''garbage'' then Inl ''ssh: no key found''
                 else Inr \<lparr>Type = ''ssh-ed25519'', Marshal = line\<rparr>),
      TrimSpace = (\<lambda>s. rev (dropWhile isSpace (rev (dropWhile isSpace s))))\<rparr>"

definition example_Config :: Config where
  "example_Config =
     \<lparr>Config_Address = ''gateway'', Config_Port = 22, User = [], Password = [],
      PrivateKey = [], PublicKey = [], UserLevel = 0\<rparr>"

definition pinned_Config :: Config where
  "pinned_Config =
     example_Config\<lparr>PublicKey := ''AAAA'' @ [CHR 0x0A] @ ''  '' @ [CHR 0x0A] @ '' BBBB''\<rparr>"

definition key_Config :: Config where
  "key_Config = example_Config\<lparr>PrivateKey := ''PEM''\<rparr>"

definition encrypted_key_Config :: Config where
  "encrypted_key_Config = example_Config\<lparr>PrivateKey := ''ENCRYPTED PEM'', Password := ''secret''\<rparr>"

definition bad_key_Config :: Config where
  "bad_key_Config = example_Config\<lparr>PrivateKey := ''PEM'', Password := ''secret''\<rparr>"

definition password_Config :: Config where
  "password_Config = example_Config\<lparr>Password := ''secret''\<rparr>"

definition garbage_Config :: Config where
  "garbage_Config = example_Config\<lparr>PublicKey := ''garbage''\<rparr>"

definition example_ForLevel :: "32 word \<Rightarrow> Timeouts" where
  "example_ForLevel level = \<lparr>ConnectionIdle = 300, UplinkOnly = 2, DownlinkOnly = 5\<rparr>"

definition example_World :: World where
  "example_World =
     \<lparr>this = fst (Init example_Lib example_Config example_ForLevel zero_Client),
      dials = 0, slept = [], clients = 0, opens = [], watchers = Map.empty, closed = {}\<rparr>"

text \<open>A dialer that fails twice and then succeeds, and one that always fails.\<close>

definition example_Env :: "(nat \<Rightarrow> Destination \<Rightarrow> string + nat) \<Rightarrow> (nat \<Rightarrow> string option) \<Rightarrow> Env" where
  "example_Env dialer handshake =
     \<lparr>Dial = dialer,
      NewClientConn = (\<lambda>conn addr config. handshake conn),
      IsValid = (\<lambda>d. Address d \<noteq> []),
      ssh_Dial = (\<lambda>sc d. Inr 0),
      task_Run = (\<lambda>conn timeouts. None),
      ssh_Close = (\<lambda>sc. None)\<rparr>"

definition fails_twice :: "nat \<Rightarrow> Destination \<Rightarrow> string + nat" where
  "fails_twice k d = (if k < 2 then Inl ''connection refused'' else Inr k)"

definition always_fails :: "nat \<Rightarrow> Destination \<Rightarrow> string + nat" where
  "always_fails k d = Inl ''connection refused''"

definition handshake_ok :: "nat \<Rightarrow> string option" where
  "handshake_ok conn = None"

definition handshake_fails :: "nat \<Rightarrow> string option" where
  "handshake_fails conn = Some ''ssh: handshake failed''"

definition example_Target :: Outbound where
  "example_Target = \<lparr>Target = \<lparr>Network = Network_TCP, Address = ''example.org'', Port = 443\<rparr>\<rparr>"

definition always_succeeds :: "nat \<Rightarrow> Destination \<Rightarrow> string + nat" where
  "always_succeeds k d = Inr k"

definition good_Env :: Env where
  "good_Env = example_Env always_succeeds handshake_ok"




text \<open>
  Two calls of \<^verbatim>\<open>Process\<close> and one call of \<^verbatim>\<open>Close\<close> on a client that has just been
  initialised.
\<close>

definition two_requests :: System where
  "two_requests =
     \<lparr>world = example_World,
      procs = [0 \<mapsto> L109 (Some example_Target), 1 \<mapsto> L109 (Some example_Target)],
      closers = [0 \<mapsto> L194],
      connects = 0\<rparr>"




text \<open>
  A schedule in which the first call gets its ssh client, \<^verbatim>\<open>Close\<close> closes it, and the
  watcher comes to the assignment of line 134.
\<close>

definition close_schedule :: "actor list" where
  "close_schedule =
     [Proc 0, Proc 0, Proc 0, Proc 0, Proc 0, Proc 0, Proc 0,
      Closer 0, Closer 0,
      Watcher 0, Watcher 0]"

text \<open>The world after one call of \<^verbatim>\<open>Process\<close> that connected at the first attempt.\<close>

definition connected_World :: World where
  "connected_World =
     example_World\<lparr>this := (this example_World)\<lparr>client := Some 0\<rparr>,
                   dials := 1, clients := 1, opens := [0], watchers := [0 \<mapsto> W129]\<rparr>"

definition udp_Target :: Outbound where
  "udp_Target = \<lparr>Target = \<lparr>Network = Network_Other 3, Address = ''example.org'', Port = 53\<rparr>\<rparr>"

definition invalid_Target :: Outbound where
  "invalid_Target = \<lparr>Target = \<lparr>Network = Network_TCP, Address = [], Port = 0\<rparr>\<rparr>"

text \<open>
  The zero value of \<^verbatim>\<open>Destination\<close>: the network is the zero of its enumeration, which
  is not TCP, and there is no address.
\<close>

definition zero_Target :: Outbound where
  "zero_Target = \<lparr>Target = \<lparr>Network = Network_Other 0, Address = [], Port = 0\<rparr>\<rparr>"

section \<open>Properties\<close>

subsection \<open>Evaluation of the example inputs\<close>

lemma cfg_simps:
  "PrivateKey key_Config = ''PEM''" "Password key_Config = []"
  "PrivateKey encrypted_key_Config = ''ENCRYPTED PEM''" "Password encrypted_key_Config = ''secret''"
  "PrivateKey bad_key_Config = ''PEM''" "Password bad_key_Config = ''secret''"
  "PrivateKey password_Config = []" "Password password_Config = ''secret''"
  "PrivateKey example_Config = []" "Password example_Config = []"
  "PrivateKey garbage_Config = []" "Password garbage_Config = []"
  "PrivateKey pinned_Config = []" "Password pinned_Config = []"
  "PublicKey key_Config = []" "PublicKey encrypted_key_Config = []" "PublicKey bad_key_Config = []"
  "PublicKey password_Config = []" "PublicKey example_Config = []"
  by (simp_all add: key_Config_def encrypted_key_Config_def bad_key_Config_def
        password_Config_def example_Config_def garbage_Config_def pinned_Config_def)

lemma lib_simps:
  "ParsePrivateKey example_Lib ''PEM'' = Inr (Signer ''PEM'')"
  "ParsePrivateKeyWithPassphrase example_Lib ''ENCRYPTED PEM'' ''secret'' =
     Inr (Signer ''ENCRYPTED PEM'')"
  "ParsePrivateKeyWithPassphrase example_Lib ''PEM'' ''secret'' =
     Inl ''x509: decryption password incorrect''"
  by (simp_all add: example_Lib_def)

lemma EncodeToString_CCC: "EncodeToString ''CCC'' = ''Q0ND''"
  by (simp add: b64_def encodeStd_def)

lemma Init_keys_empty: "PublicKey config = [] \<Longrightarrow> Init_keys lib config = Inr []"
  by (simp add: Init_keys_def)



lemma Init_keys_garbage:
  "Init_keys example_Lib garbage_Config =
     Inl (Error ''ssh: no key foundparse public key'' Severity_Unset
            (Some (ExternalError ''ssh: no key found'')))"
  by (simp add: Init_keys_def garbage_Config_def example_Config_def example_Lib_def
        isSpace_def newError_def)

lemma Init_auth_none:
  "PrivateKey config = [] \<Longrightarrow> Password config = [] \<Longrightarrow> Init_auth lib config c = (c, None)"
  by (simp add: Init_auth_def)


lemma Init_example:
  "Init example_Lib example_Config example_ForLevel zero_Client =
     ((Init_start example_Config example_ForLevel zero_Client)
        \<lparr>hostKeyCallback := Some permissive_callback\<rparr>, None)"
  by (simp add: Init_def Init_auth_none Init_keys_empty cfg_simps)

lemma example_World_simps:
  "dials example_World = 0" "slept example_World = []" "clients example_World = 0"
  "client (this example_World) = None" "Mutex (this example_World) = False"
  "opens example_World = []" "watchers example_World = Map.empty" "closed example_World = {}"
  by (simp_all add: example_World_def Init_example)
     (simp_all add: Init_start_def zero_Client_def)

lemma Lock_simps:
  "client (this (Lock w)) = client (this w)" "Mutex (this (Lock w))"
  "dials (Lock w) = dials w" "slept (Lock w) = slept w" "clients (Lock w) = clients w"
  by (simp_all add: Lock_def)

subsection \<open>The host key callback\<close>


lemma Init_success_callback:
  assumes "Init lib config ForLevel c = (c', None)"
  shows "\<exists>keys. Init_keys lib config = Inr keys \<and>
           hostKeyCallback c' =
             Some (if keys \<noteq> [] then pinned_callback keys else permissive_callback)"
proof -
  obtain c2 e where a: "Init_auth lib config (Init_start config ForLevel c) = (c2, e)"
    by (cases "Init_auth lib config (Init_start config ForLevel c)")
  show ?thesis
  proof (cases "Init_keys lib config")
    case (Inl err)
    with assms a show ?thesis by (cases e) (simp_all add: Init_def)
  next
    case (Inr keys)
    with assms a show ?thesis by (cases e; cases "keys = []") (auto simp: Init_def)
  qed
qed



text \<open>
  C6. When \<^verbatim>\<open>Init\<close> succeeds on a configuration whose list of parsed public keys is
  empty, the host key callback it installs returns no error for every presented key,
  and what it does besides is to write one record to the log, at the info level, with
  the type of the key and the base64 text of its marshalled form.
\<close>

theorem permissive_callback_accepts_all:
  assumes "Init lib config ForLevel c = (c', None)"
    and "Init_keys lib config = Inr []"
  shows "\<exists>callback. hostKeyCallback c' = Some callback \<and>
           (\<forall>hostname remote key.
              callback hostname remote key =
                ([AtInfo (newError [''ssh: server send '', Type key, '' '',
                                    EncodeToString (Marshal key)])], None))"
proof -
  from Init_success_callback [OF assms(1)] assms(2)
  have "hostKeyCallback c' = Some permissive_callback" by auto
  then show ?thesis by (simp add: permissive_callback_def)
qed

theorem permissive_callback_accepts_all_witness:
  "\<exists>callback.
     hostKeyCallback (fst (Init example_Lib example_Config example_ForLevel zero_Client)) =
       Some callback \<and>
     callback ''gateway'' ''10.0.0.1:22'' \<lparr>Type = ''ssh-rsa'', Marshal = ''CCC''\<rparr> =
       ([Error ''ssh: server send ssh-rsa Q0ND'' Severity_Info None], None)"
proof -
  have keys: "Init_keys example_Lib example_Config = Inr []"
    by (simp add: Init_keys_empty cfg_simps)
  from permissive_callback_accepts_all [OF Init_example keys]
  obtain callback where cb: "hostKeyCallback
       ((Init_start example_Config example_ForLevel zero_Client)
          \<lparr>hostKeyCallback := Some permissive_callback\<rparr>) = Some callback"
    and all: "\<And>hostname remote key. callback hostname remote key =
                ([AtInfo (newError [''ssh: server send '', Type key, '' '',
                                    EncodeToString (Marshal key)])], None)"
    by blast
  have "callback ''gateway'' ''10.0.0.1:22'' \<lparr>Type = ''ssh-rsa'', Marshal = ''CCC''\<rparr> =
       ([Error ''ssh: server send ssh-rsa Q0ND'' Severity_Info None], None)"
    by (simp add: all newError_def b64_def encodeStd_def)
  with cb show ?thesis by (simp add: Init_example)
qed

subsection \<open>The authentication methods\<close>

lemma Init_error_iff:
  "snd (Init lib config ForLevel c) = None \<longleftrightarrow>
     snd (Init_auth lib config (Init_start config ForLevel c)) = None \<and>
     (\<exists>keys. Init_keys lib config = Inr keys)"
proof -
  obtain c2 e where a: "Init_auth lib config (Init_start config ForLevel c) = (c2, e)"
    by (cases "Init_auth lib config (Init_start config ForLevel c)")
  show ?thesis
    by (cases e; cases "Init_keys lib config") (simp_all add: Init_def a)
qed

lemma Init_auth_field:
  "auth (fst (Init lib config ForLevel c)) =
     auth (fst (Init_auth lib config (Init_start config ForLevel c)))"
proof -
  obtain c2 e where a: "Init_auth lib config (Init_start config ForLevel c) = (c2, e)"
    by (cases "Init_auth lib config (Init_start config ForLevel c)")
  show ?thesis
    by (cases e; cases "Init_keys lib config") (simp_all add: Init_def a)
qed

lemma Init_error_auth:
  assumes "snd (Init_auth lib config (Init_start config ForLevel c)) = Some err"
  shows "snd (Init lib config ForLevel c) = Some err"
proof -
  obtain c2 e where a: "Init_auth lib config (Init_start config ForLevel c) = (c2, e)"
    by (cases "Init_auth lib config (Init_start config ForLevel c)")
  with assms show ?thesis by (simp add: Init_def)
qed

text \<open>
  C7, as the code has it. On a receiver without authentication methods (the zero
  value that the constructor passes): a configured private key is parsed, with the
  password as passphrase exactly when a password is configured too; when it does not
  parse, \<^verbatim>\<open>Init\<close> fails with the error \<^verbatim>\<open>parse private key\<close>, and when it parses the only
  method is the public key method of its signer. With a password and no private key
  the only method is that password. With neither there is no method. In the last two
  cases \<^verbatim>\<open>Init\<close> succeeds exactly when every configured public key line parses.
\<close>

theorem Init_credentials:
  assumes "auth c = []"
  shows "(PrivateKey config \<noteq> [] \<longrightarrow>
            (case (if Password config = [] then ParsePrivateKey lib (PrivateKey config)
                   else ParsePrivateKeyWithPassphrase lib (PrivateKey config) (Password config)) of
               Inl err \<Rightarrow>
                 snd (Init lib config ForLevel c) =
                   Some (Base (newError [''parse private key'']) (ExternalError err))
             | Inr signer \<Rightarrow> auth (fst (Init lib config ForLevel c)) = [PublicKeys signer])) \<and>
         (PrivateKey config = [] \<and> Password config \<noteq> [] \<longrightarrow>
            auth (fst (Init lib config ForLevel c)) = [AuthMethod.Password (Password config)] \<and>
            (snd (Init lib config ForLevel c) = None
               \<longleftrightarrow> (\<exists>keys. Init_keys lib config = Inr keys))) \<and>
         (PrivateKey config = [] \<and> Password config = [] \<longrightarrow>
            auth (fst (Init lib config ForLevel c)) = [] \<and>
            (snd (Init lib config ForLevel c) = None
               \<longleftrightarrow> (\<exists>keys. Init_keys lib config = Inr keys)))"
proof (intro conjI impI)
  let ?parsed = "if Password config = [] then ParsePrivateKey lib (PrivateKey config)
                 else ParsePrivateKeyWithPassphrase lib (PrivateKey config) (Password config)"
  assume pk: "PrivateKey config \<noteq> []"
  show "case ?parsed of
               Inl err \<Rightarrow>
                 snd (Init lib config ForLevel c) =
                   Some (Base (newError [''parse private key'']) (ExternalError err))
             | Inr signer \<Rightarrow> auth (fst (Init lib config ForLevel c)) = [PublicKeys signer]"
  proof (cases ?parsed)
    case (Inl err)
    with pk have "snd (Init_auth lib config (Init_start config ForLevel c)) =
        Some (Base (newError [''parse private key'']) (ExternalError err))"
      by (simp add: Init_auth_def)
    from Init_error_auth [OF this] Inl show ?thesis by simp
  next
    case (Inr signer)
    with pk have "auth (fst (Init_auth lib config (Init_start config ForLevel c))) =
        [PublicKeys signer]"
      by (simp add: Init_auth_def)
    with Inr show ?thesis by (simp add: Init_auth_field)
  qed
next
  assume a: "PrivateKey config = [] \<and> Password config \<noteq> []"
  then show "auth (fst (Init lib config ForLevel c)) = [AuthMethod.Password (Password config)]"
    by (simp add: Init_auth_field Init_auth_def)
  from a show "snd (Init lib config ForLevel c) = None
      \<longleftrightarrow> (\<exists>keys. Init_keys lib config = Inr keys)"
    by (simp add: Init_error_iff Init_auth_def)
next
  assume a: "PrivateKey config = [] \<and> Password config = []"
  then show "auth (fst (Init lib config ForLevel c)) = []"
    using assms by (simp add: Init_auth_field Init_auth_def Init_start_def)
  from a show "snd (Init lib config ForLevel c) = None
      \<longleftrightarrow> (\<exists>keys. Init_keys lib config = Inr keys)"
    by (simp add: Init_error_iff Init_auth_def)
qed

theorem Init_credentials_witness:
  "auth zero_Client = [] \<and>
   auth (fst (Init example_Lib key_Config example_ForLevel zero_Client)) =
     [PublicKeys (Signer ''PEM'')] \<and>
   auth (fst (Init example_Lib encrypted_key_Config example_ForLevel zero_Client)) =
     [PublicKeys (Signer ''ENCRYPTED PEM'')] \<and>
   snd (Init example_Lib bad_key_Config example_ForLevel zero_Client) =
     Some (Error ''parse private key'' Severity_Unset
             (Some (ExternalError ''x509: decryption password incorrect''))) \<and>
   auth (fst (Init example_Lib password_Config example_ForLevel zero_Client)) =
     [AuthMethod.Password ''secret''] \<and>
   snd (Init example_Lib password_Config example_ForLevel zero_Client) = None \<and>
   auth (fst (Init example_Lib example_Config example_ForLevel zero_Client)) = [] \<and>
   snd (Init example_Lib example_Config example_ForLevel zero_Client) = None"
proof -
  have z: "auth zero_Client = []"
    by (simp add: zero_Client_def)
  note inst = Init_credentials [OF z, where lib = example_Lib and ForLevel = example_ForLevel]
  have 1: "auth (fst (Init example_Lib key_Config example_ForLevel zero_Client)) =
      [PublicKeys (Signer ''PEM'')]"
    using inst [where config = key_Config] by (simp add: cfg_simps lib_simps)
  have 2: "auth (fst (Init example_Lib encrypted_key_Config example_ForLevel zero_Client)) =
      [PublicKeys (Signer ''ENCRYPTED PEM'')]"
    using inst [where config = encrypted_key_Config] by (simp add: cfg_simps lib_simps)
  have 3: "snd (Init example_Lib bad_key_Config example_ForLevel zero_Client) =
      Some (Error ''parse private key'' Severity_Unset
              (Some (ExternalError ''x509: decryption password incorrect'')))"
    using inst [where config = bad_key_Config] by (simp add: cfg_simps lib_simps newError_def)
  have 4: "auth (fst (Init example_Lib password_Config example_ForLevel zero_Client)) =
      [AuthMethod.Password ''secret''] \<and>
      snd (Init example_Lib password_Config example_ForLevel zero_Client) = None"
    using inst [where config = password_Config] by (simp add: cfg_simps Init_keys_empty)
  have 5: "auth (fst (Init example_Lib example_Config example_ForLevel zero_Client)) = [] \<and>
      snd (Init example_Lib example_Config example_ForLevel zero_Client) = None"
    using inst [where config = example_Config] by (simp add: cfg_simps Init_keys_empty)
  from z 1 2 3 4 5 show ?thesis by simp
qed

text \<open>
  The claim C7 says that \<^verbatim>\<open>Init\<close> succeeds on every configuration without private key
  and without password. It does not when a line of the configured public keys does
  not parse: the authentication methods are left empty and \<^verbatim>\<open>Init\<close> returns the error
  of line 84.
\<close>

theorem Init_without_credentials_counterexample:
  "PrivateKey garbage_Config = [] \<and> Password garbage_Config = [] \<and>
   auth (fst (Init example_Lib garbage_Config example_ForLevel zero_Client)) = [] \<and>
   snd (Init example_Lib garbage_Config example_ForLevel zero_Client) =
     Some (Error ''ssh: no key foundparse public key'' Severity_Unset
             (Some (ExternalError ''ssh: no key found'')))"
  by (simp add: Init_def Init_auth_none cfg_simps Init_keys_garbage)
     (simp add: Init_start_def zero_Client_def)

subsection \<open>The dial and its retries\<close>

lemma three_attempts:
  "ExponentialBackoff_On 2 100 sleep method s =
     (case method s of
        (Inr v, s1) \<Rightarrow> (Inr v, s1)
      | (Inl e1, s1) \<Rightarrow>
          (case method (sleep 100 s1) of
             (Inr v, s2) \<Rightarrow> (Inr v, s2)
           | (Inl e2, s2) \<Rightarrow> method (sleep 200 s2)))"
proof -
  have "ExponentialBackoff_On 2 100 sleep method s =
      ExponentialBackoff_On (Suc (Suc 0)) 100 sleep method s"
    by (simp add: numeral_2_eq_2)
  then show ?thesis
    by (simp split: prod.splits sum.splits)
qed

lemma dial_once_Inl:
  "Dial env (dials w) (server (this w)) = Inl e \<Longrightarrow>
   dial_once env w = (Inl (ExternalError e), w\<lparr>dials := Suc (dials w)\<rparr>)"
  by (simp add: dial_once_def)

lemma retry_fails_twice:
  assumes "Dial env (dials w) (server (this w)) = Inl e1"
    and "Dial env (dials w + 1) (server (this w)) = Inl e2"
    and "Dial env (dials w + 2) (server (this w)) = r"
  shows "ExponentialBackoff_On 2 100 Sleep (dial_once env) w =
           (case r of Inl e3 \<Rightarrow> Inl (ExternalError e3) | Inr conn \<Rightarrow> Inr conn,
            w\<lparr>dials := dials w + 3, slept := slept w @ [100, 200]\<rparr>)"
proof -
  let ?w1 = "Sleep 100 (w\<lparr>dials := Suc (dials w)\<rparr>)"
  let ?w2 = "Sleep 200 (?w1\<lparr>dials := Suc (dials ?w1)\<rparr>)"
  have 1: "dial_once env w = (Inl (ExternalError e1), w\<lparr>dials := Suc (dials w)\<rparr>)"
    using assms(1) by (rule dial_once_Inl)
  have 2: "dial_once env ?w1 = (Inl (ExternalError e2), ?w1\<lparr>dials := Suc (dials ?w1)\<rparr>)"
    using assms(2) by (intro dial_once_Inl) (simp add: Sleep_def)
  have 3: "dial_once env ?w2 =
      (case r of Inl e3 \<Rightarrow> Inl (ExternalError e3) | Inr conn \<Rightarrow> Inr conn,
       ?w2\<lparr>dials := Suc (dials ?w2)\<rparr>)"
    using assms(3) by (cases r) (simp_all add: dial_once_def Sleep_def)
  have 4: "?w2\<lparr>dials := Suc (dials ?w2)\<rparr> =
      w\<lparr>dials := dials w + 3, slept := slept w @ [100, 200]\<rparr>"
    by (simp add: Sleep_def)
  show ?thesis
    unfolding three_attempts 1 2 prod.case sum.case 3 4 ..
qed

text \<open>
  C2. \<^verbatim>\<open>connect\<close> on a dialer whose next two calls fail. When the third call gives a
  raw connection, \<^verbatim>\<open>connect\<close> has called the dialer exactly three times, has slept
  100 ms and then 200 ms, and goes on to the handshake over that connection: it
  returns the new ssh client, now the shared one, when the handshake succeeds (and the
  handshake error otherwise, never the connect error). When the third call fails
  too, \<^verbatim>\<open>connect\<close> returns the error \<^verbatim>\<open>failed to connect to destination\<close> after exactly
  these three calls and two sleeps, and changes nothing else.
\<close>

theorem connect_three_attempts:
  assumes "Dial env (dials w) (server (this w)) = Inl e1"
    and "Dial env (dials w + 1) (server (this w)) = Inl e2"
  shows "(Dial env (dials w + 2) (server (this w)) = Inr conn \<longrightarrow>
            (\<exists>r w'. connect env w = (r, w') \<and> dials w' = dials w + 3 \<and>
                     slept w' = slept w @ [100, 200] \<and>
                     (case NewClientConn env conn (Address (server (this w)))
                             \<lparr>cc_User = username (this w), cc_Auth = auth (this w),
                              cc_HostKeyCallback = hostKeyCallback (this w)\<rparr> of
                        None \<Rightarrow> r = Inr (clients w) \<and> client (this w') = Some (clients w)
                      | Some err \<Rightarrow>
                          r = Inl (Base (newError [''failed to ssh'']) (ExternalError err))))) \<and>
         (Dial env (dials w + 2) (server (this w)) = Inl e3 \<longrightarrow>
            connect env w =
              (Inl (Base (AtWarning (newError [''failed to connect to destination'']))
                         (ExternalError e3)),
               w\<lparr>dials := dials w + 3, slept := slept w @ [100, 200]\<rparr>))"
proof (intro conjI impI)
  assume "Dial env (dials w + 2) (server (this w)) = Inr conn"
  from retry_fails_twice [OF assms this]
  show "\<exists>r w'. connect env w = (r, w') \<and> dials w' = dials w + 3 \<and>
                     slept w' = slept w @ [100, 200] \<and>
                     (case NewClientConn env conn (Address (server (this w)))
                             \<lparr>cc_User = username (this w), cc_Auth = auth (this w),
                              cc_HostKeyCallback = hostKeyCallback (this w)\<rparr> of
                        None \<Rightarrow> r = Inr (clients w) \<and> client (this w') = Some (clients w)
                      | Some err \<Rightarrow>
                          r = Inl (Base (newError [''failed to ssh'']) (ExternalError err)))"
    by (simp add: connect_def Let_def split: option.split)
next
  assume "Dial env (dials w + 2) (server (this w)) = Inl e3"
  from retry_fails_twice [OF assms this]
  show "connect env w =
              (Inl (Base (AtWarning (newError [''failed to connect to destination'']))
                         (ExternalError e3)),
               w\<lparr>dials := dials w + 3, slept := slept w @ [100, 200]\<rparr>)"
    by (simp add: connect_def)
qed

theorem connect_three_attempts_witness:
  "(\<exists>w'. connect (example_Env fails_twice handshake_ok) example_World = (Inr 0, w') \<and>
          dials w' = 3 \<and> slept w' = [100, 200] \<and> client (this w') = Some 0) \<and>
   connect (example_Env always_fails handshake_ok) example_World =
     (Inl (Error ''failed to connect to destination'' Severity_Warning
             (Some (ExternalError ''connection refused''))),
      example_World\<lparr>dials := 3, slept := [100, 200]\<rparr>)"
proof
  show "\<exists>w'. connect (example_Env fails_twice handshake_ok) example_World = (Inr 0, w') \<and>
          dials w' = 3 \<and> slept w' = [100, 200] \<and> client (this w') = Some 0"
    using connect_three_attempts [of "example_Env fails_twice handshake_ok" example_World
        "''connection refused''" "''connection refused''" 2 "''none''"]
    by (simp add: example_Env_def fails_twice_def handshake_ok_def example_World_simps)
  show "connect (example_Env always_fails handshake_ok) example_World =
     (Inl (Error ''failed to connect to destination'' Severity_Warning
             (Some (ExternalError ''connection refused''))),
      example_World\<lparr>dials := 3, slept := [100, 200]\<rparr>)"
    using connect_three_attempts [of "example_Env always_fails handshake_ok" example_World
        "''connection refused''" "''connection refused''" 0 "''connection refused''"]
    by (simp add: example_Env_def always_fails_def example_World_simps newError_def)
qed

subsection \<open>The checks at the head of Process\<close>

text \<open>
  C8. A call of \<^verbatim>\<open>Process\<close> whose context carries a valid target on a network other
  than TCP returns the error \<^verbatim>\<open>only TCP is supported in SSH proxy\<close> and leaves the
  world as it was: the mutex is not taken, the dialer is not called, no ssh client is
  made and no channel is opened.
\<close>

theorem Process_only_TCP:
  assumes "outbound = Some ob" and "IsValid env (Target ob)"
    and "Network (Target ob) \<noteq> Network_TCP"
  shows "Process env outbound w =
           Some (Some (newError [''only TCP is supported in SSH proxy'']), w)"
  using assms by (simp add: Process_def)

theorem Process_only_TCP_witness:
  "Process (example_Env fails_twice handshake_ok) (Some udp_Target) example_World =
     Some (Some (Error ''only TCP is supported in SSH proxy'' Severity_Unset None), example_World)"
  using Process_only_TCP [of "Some udp_Target" udp_Target
      "example_Env fails_twice handshake_ok" example_World]
  by (simp add: udp_Target_def example_Env_def newError_def)

text \<open>
  The claim C8 speaks of every request whose network is not TCP. The check of the
  target (line 110) comes before the check of the network (line 115): for the zero
  \<^verbatim>\<open>Destination\<close>, whose network is not TCP and which is not valid, \<^verbatim>\<open>Process\<close> returns
  \<^verbatim>\<open>target not specified\<close> and not \<^verbatim>\<open>only TCP is supported in SSH proxy\<close>.
\<close>

theorem Process_not_TCP_invalid_counterexample:
  "Network (Target zero_Target) \<noteq> Network_TCP \<and>
   \<not> IsValid (example_Env fails_twice handshake_ok) (Target zero_Target) \<and>
   Process (example_Env fails_twice handshake_ok) (Some zero_Target) example_World =
     Some (Some (Error ''target not specified'' Severity_Unset None), example_World) \<and>
   Process (example_Env fails_twice handshake_ok) (Some zero_Target) example_World \<noteq>
     Some (Some (Error ''only TCP is supported in SSH proxy'' Severity_Unset None), example_World)"
  by (simp add: Process_def zero_Target_def example_Env_def newError_def)

text \<open>
  C10. A call of \<^verbatim>\<open>Process\<close> whose context carries no outbound session, or one whose
  target is not valid, returns the error \<^verbatim>\<open>target not specified\<close> whatever the network
  of the target is, and leaves the world as it was.
\<close>

theorem Process_target_not_specified:
  assumes "outbound = None \<or> (\<exists>ob. outbound = Some ob \<and> \<not> IsValid env (Target ob))"
  shows "Process env outbound w = Some (Some (newError [''target not specified'']), w)"
  using assms by (auto simp: Process_def)

theorem Process_target_not_specified_witness:
  "Process (example_Env fails_twice handshake_ok) None example_World =
     Some (Some (Error ''target not specified'' Severity_Unset None), example_World) \<and>
   Process (example_Env fails_twice handshake_ok) (Some invalid_Target) example_World =
     Some (Some (Error ''target not specified'' Severity_Unset None), example_World)"
  using Process_target_not_specified [of None "example_Env fails_twice handshake_ok" example_World]
    Process_target_not_specified [of "Some invalid_Target"
      "example_Env fails_twice handshake_ok" example_World]
  by (simp add: invalid_Target_def example_Env_def newError_def)

subsection \<open>What connect and the relay leave unchanged\<close>

lemma retry_frame:
  "ExponentialBackoff_On n delay Sleep (dial_once env) w = (r, w') \<Longrightarrow>
   this w' = this w \<and> clients w' = clients w \<and> opens w' = opens w \<and>
   watchers w' = watchers w \<and> closed w' = closed w"
proof (induction n arbitrary: delay w)
  case 0
  then show ?case by (auto simp: dial_once_def split: sum.splits)
next
  case (Suc n)
  obtain r1 w1 where d: "dial_once env w = (r1, w1)"
    by (cases "dial_once env w")
  then have f1: "this w1 = this w \<and> clients w1 = clients w \<and> opens w1 = opens w \<and>
   watchers w1 = watchers w \<and> closed w1 = closed w"
    by (auto simp: dial_once_def split: sum.splits)
  show ?case
  proof (cases r1)
    case (Inl e)
    with Suc.prems d have "ExponentialBackoff_On n (2 * delay) Sleep (dial_once env) (Sleep delay w1) = (r, w')"
      by simp
    from Suc.IH [OF this] f1 show ?thesis by (simp add: Sleep_def)
  next
    case (Inr v)
    with Suc.prems d f1 show ?thesis by auto
  qed
qed

lemma connect_Inl:
  assumes "connect env w = (Inl err, w')"
  shows "this w' = this w \<and> clients w' = clients w \<and> opens w' = opens w \<and>
         watchers w' = watchers w \<and> closed w' = closed w"
proof -
  obtain r w1 where d: "ExponentialBackoff_On 2 100 Sleep (dial_once env) w = (r, w1)"
    by (cases "ExponentialBackoff_On 2 100 Sleep (dial_once env) w")
  from retry_frame [OF d] assms d show ?thesis
    by (cases r) (simp_all add: connect_def Let_def split: option.splits)
qed

lemma connect_Inr:
  assumes "connect env w = (Inr new, w')"
  shows "new = clients w \<and> this w' = (this w)\<lparr>client := Some new\<rparr> \<and>
         clients w' = Suc (clients w) \<and> opens w' = opens w \<and>
         watchers w' = watchers w \<and> closed w' = closed w"
proof -
  obtain r w1 where d: "ExponentialBackoff_On 2 100 Sleep (dial_once env) w = (r, w1)"
    by (cases "ExponentialBackoff_On 2 100 Sleep (dial_once env) w")
  have f: "this w1 = this w" "clients w1 = clients w" "opens w1 = opens w"
    "watchers w1 = watchers w" "closed w1 = closed w"
    using retry_frame [OF d] by simp_all
  show ?thesis
  proof (cases r)
    case (Inl e)
    with assms d show ?thesis by (simp add: connect_def)
  next
    case (Inr conn)
    show ?thesis
    proof (cases "NewClientConn env conn (Address (server (this w1)))
        \<lparr>cc_User = username (this w), cc_Auth = auth (this w),
         cc_HostKeyCallback = hostKeyCallback (this w)\<rparr>")
      case None
      with assms d Inr have "new = clients w1" "w' = w1\<lparr>clients := Suc (clients w1),
                                   this := (this w1)\<lparr>client := Some (clients w1)\<rparr>\<rparr>"
        by (auto simp: connect_def Let_def)
      with f show ?thesis by simp
    next
      case (Some e)
      with assms d Inr show ?thesis by (simp add: connect_def)
    qed
  qed
qed

lemma relay_frame:
  assumes "Process_relay env sc d w = (err, w')"
  shows "this w' = this w \<and> clients w' = clients w \<and> opens w' = opens w @ [sc] \<and>
         watchers w' = watchers w \<and> closed w' = closed w"
proof -
  have "w' = w\<lparr>opens := opens w @ [sc]\<rparr>"
    using assms by (simp add: Process_relay_def Let_def split: sum.splits option.splits)
  then show ?thesis by simp
qed


lemma world_simps:
  "this (Lock w) = (this w)\<lparr>Mutex := True\<rparr>" "clients (Lock w) = clients w"
  "watchers (Lock w) = watchers w" "closed (Lock w) = closed w" "opens (Lock w) = opens w"
  "this (Unlock w) = (this w)\<lparr>Mutex := False\<rparr>" "clients (Unlock w) = clients w"
  "watchers (Unlock w) = watchers w" "closed (Unlock w) = closed w" "opens (Unlock w) = opens w"
  "this (go_watch new w) = this w" "clients (go_watch new w) = clients w"
  "watchers (go_watch new w) = (watchers w)(new \<mapsto> W129)" "closed (go_watch new w) = closed w"
  "opens (go_watch new w) = opens w"
  by (simp_all add: Lock_def Unlock_def go_watch_def)


subsection \<open>A failed connect\<close>

text \<open>
  When \<^verbatim>\<open>connect\<close> fails, \<^verbatim>\<open>Process\<close> returns its error at line 126, between \<^verbatim>\<open>c.Lock()\<close>
  and \<^verbatim>\<open>c.Unlock()\<close>: the pointer stays \<^verbatim>\<open>nil\<close>, the mutex stays locked, and a later
  call of \<^verbatim>\<open>Process\<close> waits for the mutex without end.
\<close>

lemma Process_connect_error:
  assumes "outbound = Some ob" and "IsValid env (Target ob)"
    and "Network (Target ob) = Network_TCP"
    and "client (this w) = None" and "\<not> Mutex (this w)"
    and "connect env (Lock w) = (Inl err, w')"
  shows "Process env outbound w = Some (Some err, w')"
    and "client (this w') = None" and "Mutex (this w')"
    and "Process env outbound w' = None"
proof -
  from connect_Inl [OF assms(6)] have t: "this w' = this (Lock w)" by simp
  with assms(4) show c: "client (this w') = None" and m: "Mutex (this w')"
    by (simp_all add: Lock_def)
  have "Process_acquire env w = Some (Inl err, w')"
    using assms(4-6) by (simp add: Process_acquire_def Let_def Lock_simps)
  with assms(1-3) show "Process env outbound w = Some (Some err, w')"
    by (simp add: Process_def)
  have "Process_acquire env w' = None"
    using c m by (simp add: Process_acquire_def)
  with assms(1-3) show "Process env outbound w' = None"
    by (simp add: Process_def)
qed

lemma connect_handshake_fails:
  "connect (example_Env always_succeeds handshake_fails) (Lock example_World) =
     (Inl (Error ''failed to ssh'' Severity_Unset (Some (ExternalError ''ssh: handshake failed''))),
      (Lock example_World)\<lparr>dials := 1\<rparr>)"
proof -
  have "ExponentialBackoff_On 2 100 Sleep (dial_once (example_Env always_succeeds handshake_fails))
      (Lock example_World) = (Inr 0, (Lock example_World)\<lparr>dials := 1\<rparr>)"
    by (simp add: three_attempts dial_once_def example_Env_def always_succeeds_def
          Lock_simps example_World_simps)
  then show ?thesis
    by (simp add: connect_def example_Env_def handshake_fails_def newError_def)
qed


lemma connect_always_fails:
  "connect (example_Env always_fails h) (Lock example_World) =
     (Inl (Error ''failed to connect to destination'' Severity_Warning
             (Some (ExternalError ''connection refused''))),
      (Lock example_World)\<lparr>dials := 3, slept := [100, 200]\<rparr>)"
  using retry_fails_twice [of "example_Env always_fails h" "Lock example_World"
        "''connection refused''" "''connection refused''" "Inl ''connection refused''"]
  by (simp add: connect_def example_Env_def always_fails_def example_World_simps newError_def
        Lock_simps)

text \<open>
  C3. A call of \<^verbatim>\<open>Process\<close> for a TCP target, on a client without shared ssh client:
  with a dialer that always fails, and also with a dialer that succeeds and a
  handshake that fails, the call returns the error of \<^verbatim>\<open>connect\<close> and leaves the shared
  pointer \<^verbatim>\<open>nil\<close>, but it returns at line 126 with the mutex still locked. The next
  call, on the world that the first one left, never returns: it waits for the mutex
  at line 121.
\<close>

theorem Process_failed_connect_keeps_Mutex:
  "Process (example_Env always_fails handshake_ok) (Some example_Target) example_World =
     Some (Some (Error ''failed to connect to destination'' Severity_Warning
                   (Some (ExternalError ''connection refused''))),
           (Lock example_World)\<lparr>dials := 3, slept := [100, 200]\<rparr>) \<and>
   client (this ((Lock example_World)\<lparr>dials := 3, slept := [100, 200]\<rparr>)) = None \<and>
   Mutex (this ((Lock example_World)\<lparr>dials := 3, slept := [100, 200]\<rparr>)) \<and>
   Process (example_Env always_fails handshake_ok) (Some example_Target)
     ((Lock example_World)\<lparr>dials := 3, slept := [100, 200]\<rparr>) = None \<and>
   Process (example_Env always_succeeds handshake_fails) (Some example_Target) example_World =
     Some (Some (Error ''failed to ssh'' Severity_Unset
                   (Some (ExternalError ''ssh: handshake failed''))),
           (Lock example_World)\<lparr>dials := 1\<rparr>) \<and>
   client (this ((Lock example_World)\<lparr>dials := 1\<rparr>)) = None \<and>
   Mutex (this ((Lock example_World)\<lparr>dials := 1\<rparr>)) \<and>
   Process (example_Env always_succeeds handshake_fails) (Some example_Target)
     ((Lock example_World)\<lparr>dials := 1\<rparr>) = None"
proof -
  have v: "IsValid (example_Env d h) (Target example_Target)"
    "Network (Target example_Target) = Network_TCP" for d h
    by (simp_all add: example_Env_def example_Target_def)
  have w: "client (this example_World) = None" "\<not> Mutex (this example_World)"
    by (simp_all add: example_World_simps)
  from Process_connect_error [OF refl v w connect_always_fails [of handshake_ok]]
    Process_connect_error [OF refl v w connect_handshake_fails]
  show ?thesis by simp
qed

subsection \<open>One call alone\<close>

text \<open>
  \<^verbatim>\<open>Process\<close> run with no other call in progress is the sequence of the steps of one
  call, and \<^verbatim>\<open>Close\<close> is the sequence of its two steps.
\<close>

lemma solo_Returned [simp]: "solo env n (Returned err) w = (Returned err, w)"
  by (cases n) simp_all

lemma solo_Returned_126 [simp]: "solo env n (Returned_126 err) w = (Returned_126 err, w)"
  by (cases n) simp_all

lemma solo_L142: "result (solo env (Suc n) (L142 d sc) w) = Some (Process_relay env sc d w)"
  by (cases "Process_relay env sc d w") (simp add: result_def)

lemma solo_L139:
  "result (solo env (Suc (Suc n)) (L139 d sc) w) = Some (Process_relay env sc d (Unlock w))"
  using solo_L142 [of env n d sc "Unlock w"] by simp

lemma solo_L121_blocked: "Mutex (this w) \<Longrightarrow> result (solo env n (L121 d) w) = None"
  by (cases n) (simp_all add: result_def)

lemma solo_L119:
  "result (solo env (Suc (Suc (Suc (Suc (Suc (Suc (Suc n))))))) (L119 d) w) =
     (case Process_acquire env w of
        None \<Rightarrow> None
      | Some (Inl err, w1) \<Rightarrow> Some (Some err, w1)
      | Some (Inr sc, w1) \<Rightarrow> Some (Process_relay env sc d w1))"
proof (cases "client (this w)")
  case (Some sc)
  with solo_L142 [of env "Suc (Suc (Suc (Suc (Suc n))))" d sc w] show ?thesis
    by (simp add: Process_acquire_def)
next
  case None
  show ?thesis
  proof (cases "Mutex (this w)")
    case True
    with None solo_L121_blocked [of w env "Suc (Suc (Suc (Suc (Suc (Suc n)))))" d] show ?thesis
      by (simp add: Process_acquire_def)
  next
    case False
    have l: "client (this (Lock w)) = None"
      using None by (simp add: Lock_def)
    obtain r w2 where c: "connect env (Lock w) = (r, w2)"
      by (cases "connect env (Lock w)")
    show ?thesis
    proof (cases r)
      case (Inl err)
      with None False l c show ?thesis
        by (simp add: Process_acquire_def Let_def result_def)
    next
      case (Inr new)
      with None False l c solo_L139 [of env n d new "go_watch new w2"] show ?thesis
        by (simp add: Process_acquire_def Let_def)
    qed
  qed
qed

lemma Process_solo:
  "Process env outbound w = result (solo env 8 (L109 outbound) w)"
proof -
  have 8: "(8::nat) = Suc (Suc (Suc (Suc (Suc (Suc (Suc (Suc 0)))))))"
    by simp
  show ?thesis
  proof (cases outbound)
    case None
    then show ?thesis by (simp add: 8 Process_def result_def)
  next
    case (Some ob)
    show ?thesis
    proof (cases "IsValid env (Target ob) \<and> Network (Target ob) = Network_TCP")
      case True
      with Some solo_L119 [of env 0 "Target ob" w] show ?thesis
        unfolding 8 by (simp add: Process_def)
    next
      case False
      with Some show ?thesis
        by (auto simp: 8 Process_def result_def)
    qed
  qed
qed

lemma Close_steps:
  "Close env w =
     (case close_step env L194 w of
        Some (L196 sc, w1) \<Rightarrow>
          (case close_step env (L196 sc) w1 of
             Some (Close_returned err, w2) \<Rightarrow> (err, w2) | _ \<Rightarrow> (None, w1))
      | _ \<Rightarrow> (None, w))"
  by (cases "client (this w)") (simp_all add: Close_def)

subsection \<open>The invariant of the interleaved system\<close>

lemma mutex_inv_step:
  assumes "mutex_inv s"
    and others: "\<And>b. b \<noteq> a \<Longrightarrow> holder s' b = holder s b"
    and self: "holder s' a \<Longrightarrow>
                 Mutex (this (world s')) \<and> (holder s a \<or> \<not> Mutex (this (world s)))"
    and mutex: "Mutex (this (world s')) \<or> holder s a \<or> \<not> Mutex (this (world s))"
  shows "mutex_inv s'"
proof -
  from assms(1) have locked: "\<And>b. holder s b \<Longrightarrow> Mutex (this (world s))"
    and one: "\<And>b c. holder s b \<Longrightarrow> holder s c \<Longrightarrow> b = c"
    by (auto simp: mutex_inv_def)
  have "Mutex (this (world s'))" if "holder s' x" for x
  proof (cases "x = a")
    case True
    with that self show ?thesis by simp
  next
    case False
    with that others have "holder s x" by simp
    with locked one mutex False show ?thesis by blast
  qed
  moreover have "x = y" if "holder s' x" and "holder s' y" for x y
  proof (cases "x = a")
    case xa: True
    show ?thesis
    proof (cases "y = a")
      case True
      with xa show ?thesis by simp
    next
      case False
      with that others have "holder s y" by simp
      with that(1) xa self locked one show ?thesis by blast
    qed
  next
    case xa: False
    with that others have x: "holder s x" by simp
    show ?thesis
    proof (cases "y = a")
      case True
      with that(2) x self locked one show ?thesis by blast
    next
      case False
      with that others have "holder s y" by simp
      with x one show ?thesis by blast
    qed
  qed
  ultimately show ?thesis
    by (auto simp: mutex_inv_def)
qed

lemma pointer_invD:
  assumes "pointer_inv s"
  shows "live (world s) t \<Longrightarrow> client (this (world s)) = Some t"
    and "client (this (world s)) = Some t \<Longrightarrow> t < clients (world s)"
    and "procs s i = Some (L124 d) \<Longrightarrow> client (this (world s)) = None"
    and "procs s i = Some (L128 d new) \<Longrightarrow> client (this (world s)) = Some new"
    and "procs s i = Some (L128 d new) \<Longrightarrow> watchers (world s) new = None"
    and "watchers (world s) t = Some p \<Longrightarrow> t < clients (world s)"
    and "watchers (world s) t = Some p \<Longrightarrow> p \<in> {W129, W133, W134} \<Longrightarrow>
           client (this (world s)) = Some t"
    and "watchers (world s) t = Some p \<Longrightarrow> p \<in> {W133, W134} \<Longrightarrow> t \<in> closed (world s)"
proof -
  note c = assms [unfolded pointer_inv_def]
  note 1 = c [THEN conjunct1]
  note c2 = c [THEN conjunct2]
  note 2 = c2 [THEN conjunct1]
  note c3 = c2 [THEN conjunct2]
  note 3 = c3 [THEN conjunct1]
  note c4 = c3 [THEN conjunct2]
  note 4 = c4 [THEN conjunct1]
  note c5 = c4 [THEN conjunct2]
  note 5 = c5 [THEN conjunct1]
  note c6 = c5 [THEN conjunct2]
  note 6 = c6 [THEN conjunct1]
  note 7 = c6 [THEN conjunct2]
  show "live (world s) t \<Longrightarrow> client (this (world s)) = Some t"
    using 1 [rule_format, of t] by simp
  show "client (this (world s)) = Some t \<Longrightarrow> t < clients (world s)"
    using 2 [rule_format, of t] by simp
  show "procs s i = Some (L124 d) \<Longrightarrow> client (this (world s)) = None"
    using 3 [rule_format, of i d] by simp
  show "procs s i = Some (L128 d new) \<Longrightarrow> client (this (world s)) = Some new"
    using 4 [rule_format, of i d new] by simp
  show "procs s i = Some (L128 d new) \<Longrightarrow> watchers (world s) new = None"
    using 4 [rule_format, of i d new] by simp
  show "watchers (world s) t = Some p \<Longrightarrow> t < clients (world s)"
    using 5 [rule_format, of t p] by simp
  show "watchers (world s) t = Some p \<Longrightarrow> p \<in> {W129, W133, W134} \<Longrightarrow>
           client (this (world s)) = Some t"
    using 6 [rule_format, of t p] by simp
  show "watchers (world s) t = Some p \<Longrightarrow> p \<in> {W133, W134} \<Longrightarrow> t \<in> closed (world s)"
    using 7 [rule_format, of t p] by simp
qed

lemma pointer_inv_quiet:
  assumes "pointer_inv s"
    and "client (this (world s')) = client (this (world s))"
    and "clients (world s') = clients (world s)"
    and "closed (world s) \<subseteq> closed (world s')"
    and "watchers (world s') = watchers (world s)"
    and "\<And>j d. procs s' j = Some (L124 d) \<Longrightarrow>
           procs s j = Some (L124 d) \<or> client (this (world s)) = None"
    and "\<And>j d n. procs s' j = Some (L128 d n) \<Longrightarrow> procs s j = Some (L128 d n)"
  shows "pointer_inv s'"
  unfolding pointer_inv_def
proof (intro conjI allI impI)
  note D = pointer_invD [OF assms(1)]
  {
    fix t assume "live (world s') t"
    with assms(3,4) have "live (world s) t"
      by (auto simp: live_def)
    from D(1) [OF this] show "client (this (world s')) = Some t"
      by (simp add: assms(2))
  next
    fix t assume "client (this (world s')) = Some t"
    then have "client (this (world s)) = Some t" by (simp add: assms(2))
    from D(2) [OF this] show "t < clients (world s')"
      by (simp add: assms(3))
  next
    fix i d assume "procs s' i = Some (L124 d)"
    from assms(6) [OF this] D(3) show "client (this (world s')) = None"
      by (auto simp: assms(2))
  next
    fix i d new assume "procs s' i = Some (L128 d new)"
    from assms(7) [OF this] have a: "procs s i = Some (L128 d new)" .
    from D(4) [OF a] show "client (this (world s')) = Some new"
      by (simp add: assms(2))
    from D(5) [OF a] show "watchers (world s') new = None"
      by (simp add: assms(5))
  next
    fix t p assume "watchers (world s') t = Some p"
    then have "watchers (world s) t = Some p" by (simp add: assms(5))
    from D(6) [OF this] show "t < clients (world s')"
      by (simp add: assms(3))
  next
    fix t p assume "watchers (world s') t = Some p \<and> p \<in> {W129, W133, W134}"
    then have "watchers (world s) t = Some p" "p \<in> {W129, W133, W134}"
      by (simp_all add: assms(5))
    from D(7) [OF this] show "client (this (world s')) = Some t"
      by (simp add: assms(2))
  next
    fix t p assume "watchers (world s') t = Some p \<and> p \<in> {W133, W134}"
    then have "watchers (world s) t = Some p" "p \<in> {W133, W134}"
      by (simp_all add: assms(5))
    from D(8) [OF this] assms(4) show "t \<in> closed (world s')"
      by blast
  }
qed

lemma mutex_locked: "inv s \<Longrightarrow> holder s a \<Longrightarrow> Mutex (this (world s))"
  unfolding inv_def mutex_inv_def by blast

lemma mutex_one: "inv s \<Longrightarrow> holder s a \<Longrightarrow> holder s b \<Longrightarrow> a = b"
  unfolding inv_def mutex_inv_def by blast

lemma holder_proc_upd:
  assumes "\<And>t. (case watchers w' t of None \<Rightarrow> False | Some q \<Rightarrow> wholds q) =
                (case watchers (world s) t of None \<Rightarrow> False | Some q \<Rightarrow> wholds q)"
  shows "holder (s\<lparr>world := w', procs := (procs s)(i \<mapsto> p'), connects := k\<rparr>) b =
           (if b = Proc i then holds p' else holder s b)"
  using assms by (cases b) auto

lemma holder_Proc: "procs s i = Some p \<Longrightarrow> holder s (Proc i) = holds p"
  by simp

lemma inv_proc_quiet:
  assumes "inv s" and "procs s i = Some p" and "holds p' \<Longrightarrow> holds p"
    and "this w' = this (world s)" and "clients w' = clients (world s)"
    and "watchers w' = watchers (world s)" and "closed w' = closed (world s)"
    and "\<And>d. p' = L124 d \<Longrightarrow> client (this (world s)) = None"
    and "\<And>d n. p' \<noteq> L128 d n"
  shows "inv (s\<lparr>world := w', procs := (procs s)(i \<mapsto> p'), connects := k\<rparr>)"
proof -
  let ?s' = "s\<lparr>world := w', procs := (procs s)(i \<mapsto> p'), connects := k\<rparr>"
  have h: "holder ?s' b = (if b = Proc i then holds p' else holder s b)" for b
    by (rule holder_proc_upd) (simp add: assms(6))
  have "mutex_inv ?s'"
  proof (rule mutex_inv_step [where a = "Proc i"])
    show "mutex_inv s" using assms(1) by (simp add: inv_def)
    show "holder ?s' b = holder s b" if "b \<noteq> Proc i" for b
      using that by (simp add: h)
    show "Mutex (this (world ?s')) \<and> (holder s (Proc i) \<or> \<not> Mutex (this (world s)))"
      if "holder ?s' (Proc i)"
    proof -
      from that have "holds p" by (simp add: h assms(3))
      then have "holder s (Proc i)" by (simp add: assms(2))
      moreover from assms(1) this have "Mutex (this (world s))"
        by (rule mutex_locked)
      ultimately show ?thesis by (simp add: assms(4))
    qed
    show "Mutex (this (world ?s')) \<or> holder s (Proc i) \<or> \<not> Mutex (this (world s))"
      by (auto simp: assms(4))
  qed
  moreover have "pointer_inv ?s'"
  proof (rule pointer_inv_quiet)
    show "pointer_inv s" using assms(1) by (simp add: inv_def)
    show "procs s j = Some (L124 d) \<or> client (this (world s)) = None"
      if "procs ?s' j = Some (L124 d)" for j d
      using that assms(8) by (cases "j = i") auto
    show "procs s j = Some (L128 d n)" if "procs ?s' j = Some (L128 d n)" for j d n
      using that assms(9) by (cases "j = i") auto
  qed (simp_all add: assms(4-7))
  ultimately show ?thesis by (simp add: inv_def)
qed

lemma inv_Lock:
  assumes "inv s" and "procs s i = Some (L121 d)" and "\<not> Mutex (this (world s))"
  shows "inv (s\<lparr>world := Lock (world s), procs := (procs s)(i \<mapsto> L122 d), connects := k\<rparr>)"
proof -
  let ?s' = "s\<lparr>world := Lock (world s), procs := (procs s)(i \<mapsto> L122 d), connects := k\<rparr>"
  have h: "holder ?s' b = (if b = Proc i then holds (L122 d) else holder s b)" for b
    by (rule holder_proc_upd) (simp add: world_simps)
  have "mutex_inv ?s'"
  proof (rule mutex_inv_step [where a = "Proc i"])
    show "mutex_inv s" using assms(1) by (simp add: inv_def)
    show "holder ?s' b = holder s b" if "b \<noteq> Proc i" for b
      using that by (simp add: h)
  qed (simp_all add: world_simps assms(3))
  moreover have "pointer_inv ?s'"
  proof (rule pointer_inv_quiet)
    show "pointer_inv s" using assms(1) by (simp add: inv_def)
    show "procs s j = Some (L124 d') \<or> client (this (world s)) = None"
      if "procs ?s' j = Some (L124 d')" for j d'
      using that by (cases "j = i") auto
    show "procs s j = Some (L128 d' n)" if "procs ?s' j = Some (L128 d' n)" for j d' n
      using that by (cases "j = i") auto
  qed (simp_all add: world_simps)
  ultimately show ?thesis by (simp add: inv_def)
qed

lemma inv_Unlock:
  assumes "inv s" and "procs s i = Some (L139 d sc)"
  shows "inv (s\<lparr>world := Unlock (world s), procs := (procs s)(i \<mapsto> L142 d sc), connects := k\<rparr>)"
proof -
  let ?s' = "s\<lparr>world := Unlock (world s), procs := (procs s)(i \<mapsto> L142 d sc), connects := k\<rparr>"
  have h: "holder ?s' b = (if b = Proc i then holds (L142 d sc) else holder s b)" for b
    by (rule holder_proc_upd) (simp add: world_simps)
  have "mutex_inv ?s'"
  proof (rule mutex_inv_step [where a = "Proc i"])
    show "mutex_inv s" using assms(1) by (simp add: inv_def)
    show "holder ?s' b = holder s b" if "b \<noteq> Proc i" for b
      using that by (simp add: h)
  qed (simp_all add: h assms(2))
  moreover have "pointer_inv ?s'"
  proof (rule pointer_inv_quiet)
    show "pointer_inv s" using assms(1) by (simp add: inv_def)
    show "procs s j = Some (L124 d') \<or> client (this (world s)) = None"
      if "procs ?s' j = Some (L124 d')" for j d'
      using that by (cases "j = i") auto
    show "procs s j = Some (L128 d' n)" if "procs ?s' j = Some (L128 d' n)" for j d' n
      using that by (cases "j = i") auto
  qed (simp_all add: world_simps)
  ultimately show ?thesis by (simp add: inv_def)
qed

lemma inv_pointer: "inv s \<Longrightarrow> pointer_inv s"
  by (simp add: inv_def)

lemma inv_connected:
  assumes "inv s" and "procs s i = Some (L124 d)"
    and "this w' = (this (world s))\<lparr>client := Some (clients (world s))\<rparr>"
    and "clients w' = Suc (clients (world s))"
    and "watchers w' = watchers (world s)" and "closed w' = closed (world s)"
  shows "inv (s\<lparr>world := w', procs := (procs s)(i \<mapsto> L128 d (clients (world s))),
                connects := k\<rparr>)"
proof -
  let ?new = "clients (world s)"
  let ?s' = "s\<lparr>world := w', procs := (procs s)(i \<mapsto> L128 d ?new), connects := k\<rparr>"
  note D = pointer_invD [OF inv_pointer [OF assms(1)]]
  have nil: "client (this (world s)) = None"
    using D(3) assms(2) .
  have hi: "holder s (Proc i)"
    by (simp add: assms(2))
  have other: "\<not> holds q" if "procs s j = Some q" and "j \<noteq> i" for j q
  proof
    assume "holds q"
    with that(1) have "holder s (Proc j)" by simp
    from mutex_one [OF assms(1) this hi] that(2) show False by simp
  qed
  have h: "holder ?s' b = (if b = Proc i then holds (L128 d ?new) else holder s b)" for b
    by (rule holder_proc_upd) (simp add: assms(5))
  have "mutex_inv ?s'"
  proof (rule mutex_inv_step [where a = "Proc i"])
    show "mutex_inv s" using assms(1) by (simp add: inv_def)
    show "holder ?s' b = holder s b" if "b \<noteq> Proc i" for b
      using that by (simp add: h)
    show "Mutex (this (world ?s')) \<and> (holder s (Proc i) \<or> \<not> Mutex (this (world s)))"
      if "holder ?s' (Proc i)"
      using mutex_locked [OF assms(1) hi] hi by (simp add: assms(3))
    show "Mutex (this (world ?s')) \<or> holder s (Proc i) \<or> \<not> Mutex (this (world s))"
      using hi by blast
  qed
  moreover have "pointer_inv ?s'"
    unfolding pointer_inv_def
  proof (intro conjI allI impI)
    fix t assume "live (world ?s') t"
    then have t: "t < Suc ?new" "t \<notin> closed (world s)"
      by (simp_all add: live_def assms(4,6))
    have "t = ?new"
    proof (rule ccontr)
      assume "t \<noteq> ?new"
      with t have "live (world s) t" by (simp add: live_def)
      from D(1) [OF this] nil show False by simp
    qed
    then show "client (this (world ?s')) = Some t"
      by (simp add: assms(3))
  next
    fix t assume "client (this (world ?s')) = Some t"
    then show "t < clients (world ?s')"
      by (simp add: assms(3,4))
  next
    fix j d' assume "procs ?s' j = Some (L124 d')"
    then have "j \<noteq> i" "procs s j = Some (L124 d')"
      by (auto split: if_splits)
    with other [of j "L124 d'"] show "client (this (world ?s')) = None"
      by simp
  next
    fix j d' n assume a: "procs ?s' j = Some (L128 d' n)"
    have "j = i"
    proof (rule ccontr)
      assume "j \<noteq> i"
      with a other [of j "L128 d' n"] show False by simp
    qed
    with a have n: "n = ?new" by simp
    then show "client (this (world ?s')) = Some n"
      by (simp add: assms(3))
    have "watchers (world s) ?new = None"
    proof (cases "watchers (world s) ?new")
      case (Some p)
      from D(6) [OF this] show ?thesis by simp
    qed simp
    with n show "watchers (world ?s') n = None"
      by (simp add: assms(5))
  next
    fix t p assume "watchers (world ?s') t = Some p"
    then have "watchers (world s) t = Some p" by (simp add: assms(5))
    from D(6) [OF this] show "t < clients (world ?s')"
      by (simp add: assms(4))
  next
    fix t p assume "watchers (world ?s') t = Some p \<and> p \<in> {W129, W133, W134}"
    then have "watchers (world s) t = Some p" "p \<in> {W129, W133, W134}"
      by (simp_all add: assms(5))
    from D(7) [OF this] nil show "client (this (world ?s')) = Some t"
      by simp
  next
    fix t p assume "watchers (world ?s') t = Some p \<and> p \<in> {W133, W134}"
    then have "watchers (world s) t = Some p" "p \<in> {W133, W134}"
      by (simp_all add: assms(5))
    from D(8) [OF this] show "t \<in> closed (world ?s')"
      by (simp add: assms(6))
  qed
  ultimately show ?thesis by (simp add: inv_def)
qed

lemma inv_go_watch:
  assumes "inv s" and "procs s i = Some (L128 d new)"
  shows "inv (s\<lparr>world := go_watch new (world s), procs := (procs s)(i \<mapsto> L139 d new),
                connects := k\<rparr>)"
proof -
  let ?s' = "s\<lparr>world := go_watch new (world s), procs := (procs s)(i \<mapsto> L139 d new),
                connects := k\<rparr>"
  note D = pointer_invD [OF inv_pointer [OF assms(1)]]
  have shared: "client (this (world s)) = Some new" and unwatched: "watchers (world s) new = None"
    using D(4,5) assms(2) by simp_all
  have hi: "holder s (Proc i)"
    by (simp add: assms(2))
  have other: "\<not> holds q" if "procs s j = Some q" and "j \<noteq> i" for j q
  proof
    assume "holds q"
    with that(1) have "holder s (Proc j)" by simp
    from mutex_one [OF assms(1) this hi] that(2) show False by simp
  qed
  have h: "holder ?s' b = (if b = Proc i then holds (L139 d new) else holder s b)" for b
    by (rule holder_proc_upd) (simp add: world_simps unwatched)
  have "mutex_inv ?s'"
  proof (rule mutex_inv_step [where a = "Proc i"])
    show "mutex_inv s" using assms(1) by (simp add: inv_def)
    show "holder ?s' b = holder s b" if "b \<noteq> Proc i" for b
      using that by (simp add: h)
    show "Mutex (this (world ?s')) \<and> (holder s (Proc i) \<or> \<not> Mutex (this (world s)))"
      if "holder ?s' (Proc i)"
      using mutex_locked [OF assms(1) hi] hi by (simp add: world_simps)
    show "Mutex (this (world ?s')) \<or> holder s (Proc i) \<or> \<not> Mutex (this (world s))"
      using hi by blast
  qed
  moreover have "pointer_inv ?s'"
    unfolding pointer_inv_def
  proof (intro conjI allI impI)
    fix t assume "live (world ?s') t"
    then have "live (world s) t" by (simp add: live_def world_simps)
    from D(1) [OF this] show "client (this (world ?s')) = Some t"
      by (simp add: world_simps)
  next
    fix t assume "client (this (world ?s')) = Some t"
    then have "client (this (world s)) = Some t" by (simp add: world_simps)
    from D(2) [OF this] show "t < clients (world ?s')"
      by (simp add: world_simps)
  next
    fix j d' assume "procs ?s' j = Some (L124 d')"
    then have "j \<noteq> i" "procs s j = Some (L124 d')"
      by (auto split: if_splits)
    with other [of j "L124 d'"] show "client (this (world ?s')) = None"
      by simp
  next
    fix j d' n assume "procs ?s' j = Some (L128 d' n)"
    then have "j \<noteq> i" "procs s j = Some (L128 d' n)"
      by (auto split: if_splits)
    with other [of j "L128 d' n"] show "client (this (world ?s')) = Some n"
      and "watchers (world ?s') n = None"
      by simp_all
  next
    fix t p assume a: "watchers (world ?s') t = Some p"
    show "t < clients (world ?s')"
    proof (cases "t = new")
      case True
      with D(2) [OF shared] show ?thesis by (simp add: world_simps)
    next
      case False
      with a have "watchers (world s) t = Some p" by (simp add: world_simps)
      from D(6) [OF this] show ?thesis by (simp add: world_simps)
    qed
  next
    fix t p assume a: "watchers (world ?s') t = Some p \<and> p \<in> {W129, W133, W134}"
    show "client (this (world ?s')) = Some t"
    proof (cases "t = new")
      case True
      with shared show ?thesis by (simp add: world_simps)
    next
      case False
      with a have "watchers (world s) t = Some p" "p \<in> {W129, W133, W134}"
        by (simp_all add: world_simps)
      from D(7) [OF this] show ?thesis by (simp add: world_simps)
    qed
  next
    fix t p assume a: "watchers (world ?s') t = Some p \<and> p \<in> {W133, W134}"
    then have "t \<noteq> new" by (auto simp: world_simps)
    with a have "watchers (world s) t = Some p" "p \<in> {W133, W134}"
      by (simp_all add: world_simps)
    from D(8) [OF this] show "t \<in> closed (world ?s')"
      by (simp add: world_simps)
  qed
  ultimately show ?thesis by (simp add: inv_def)
qed

text \<open>The steps of a watcher.\<close>

lemma holder_world_upd:
  "holder (s\<lparr>world := w'\<rparr>) b =
     (case b of
        Proc i \<Rightarrow> holder s (Proc i)
      | Watcher t \<Rightarrow> (case watchers w' t of None \<Rightarrow> False | Some q \<Rightarrow> wholds q)
      | Closer k \<Rightarrow> False
      | Dies t \<Rightarrow> False)"
  by (cases b) simp_all

lemma inv_watcher_step:
  assumes "inv s" and "watchers (world s) t = Some p"
    and "watcher_step t p (world s) = Some w'"
  shows "inv (s\<lparr>world := w'\<rparr>)"
proof -
  let ?s' = "s\<lparr>world := w'\<rparr>"
  note D = pointer_invD [OF inv_pointer [OF assms(1)]]
  have hw: "holder s (Watcher t) = wholds p"
    by (simp add: assms(2))
  have h: "holder ?s' b = holder s b" if "b \<noteq> Watcher t"
    and "\<And>u. u \<noteq> t \<Longrightarrow> watchers w' u = watchers (world s) u" for b
    using that by (cases b) simp_all
  show ?thesis
  proof (cases p)
    case W129
    with assms(3) have closed: "t \<in> closed (world s)"
      and w': "w' = (world s)\<lparr>watchers := (watchers (world s))(t \<mapsto> W133)\<rparr>"
      by (auto split: if_splits)
    have "mutex_inv ?s'"
    proof (rule mutex_inv_step [where a = "Watcher t"])
      show "mutex_inv s" using assms(1) by (simp add: inv_def)
      show "holder ?s' b = holder s b" if "b \<noteq> Watcher t" for b
        using that by (rule h) (simp add: w')
      show "Mutex (this (world ?s')) \<or> holder s (Watcher t) \<or> \<not> Mutex (this (world s))"
        by (auto simp: w')
    qed (simp add: w')
    moreover have "pointer_inv ?s'"
      unfolding pointer_inv_def
    proof (intro conjI allI impI)
      fix u assume "live (world ?s') u"
      then have "live (world s) u" by (simp add: live_def w')
      from D(1) [OF this] show "client (this (world ?s')) = Some u" by (simp add: w')
    next
      fix u assume "client (this (world ?s')) = Some u"
      then have "client (this (world s)) = Some u" by (simp add: w')
      from D(2) [OF this] show "u < clients (world ?s')" by (simp add: w')
    next
      fix j d assume "procs ?s' j = Some (L124 d)"
      then have "procs s j = Some (L124 d)" by simp
      from D(3) [OF this] show "client (this (world ?s')) = None" by (simp add: w')
    next
      fix j d n assume "procs ?s' j = Some (L128 d n)"
      then have a: "procs s j = Some (L128 d n)" by simp
      from D(4) [OF a] show "client (this (world ?s')) = Some n" by (simp add: w')
      from D(4) [OF a] D(7) [OF assms(2)] W129 have "n = t" by simp
      with D(5) [OF a] assms(2) show "watchers (world ?s') n = None" by simp
    next
      fix u q assume "watchers (world ?s') u = Some q"
      then have "\<exists>q. watchers (world s) u = Some q"
        using assms(2) by (cases "u = t") (simp_all add: w')
      with D(6) show "u < clients (world ?s')" by (auto simp: w')
    next
      fix u q assume a: "watchers (world ?s') u = Some q \<and> q \<in> {W129, W133, W134}"
      show "client (this (world ?s')) = Some u"
      proof (cases "u = t")
        case True
        with D(7) [OF assms(2)] W129 show ?thesis by (simp add: w')
      next
        case False
        with a have "watchers (world s) u = Some q" "q \<in> {W129, W133, W134}"
          by (simp_all add: w')
        from D(7) [OF this] show ?thesis by (simp add: w')
      qed
    next
      fix u q assume a: "watchers (world ?s') u = Some q \<and> q \<in> {W133, W134}"
      show "u \<in> closed (world ?s')"
      proof (cases "u = t")
        case True
        with closed show ?thesis by (simp add: w')
      next
        case False
        with a have "watchers (world s) u = Some q" "q \<in> {W133, W134}"
          by (simp_all add: w')
        from D(8) [OF this] show ?thesis by (simp add: w')
      qed
    qed
    ultimately show ?thesis by (simp add: inv_def)
  next
    case W133
    with assms(3) have free: "\<not> Mutex (this (world s))"
      and w': "w' = (Lock (world s))\<lparr>watchers := (watchers (world s))(t \<mapsto> W134)\<rparr>"
      by (auto split: if_splits)
    have "mutex_inv ?s'"
    proof (rule mutex_inv_step [where a = "Watcher t"])
      show "mutex_inv s" using assms(1) by (simp add: inv_def)
      show "holder ?s' b = holder s b" if "b \<noteq> Watcher t" for b
        using that by (rule h) (simp add: w')
    qed (simp_all add: w' world_simps free)
    moreover have "pointer_inv ?s'"
      unfolding pointer_inv_def
    proof (intro conjI allI impI)
      fix u assume "live (world ?s') u"
      then have "live (world s) u" by (simp add: live_def w' world_simps)
      from D(1) [OF this] show "client (this (world ?s')) = Some u" by (simp add: w' world_simps)
    next
      fix u assume "client (this (world ?s')) = Some u"
      then have "client (this (world s)) = Some u" by (simp add: w' world_simps)
      from D(2) [OF this] show "u < clients (world ?s')" by (simp add: w' world_simps)
    next
      fix j d assume "procs ?s' j = Some (L124 d)"
      then have "procs s j = Some (L124 d)" by simp
      from D(3) [OF this] show "client (this (world ?s')) = None" by (simp add: w' world_simps)
    next
      fix j d n assume "procs ?s' j = Some (L128 d n)"
      then have a: "procs s j = Some (L128 d n)" by simp
      from D(4) [OF a] show "client (this (world ?s')) = Some n" by (simp add: w' world_simps)
      from D(4) [OF a] D(7) [OF assms(2)] W133 have "n = t" by simp
      with D(5) [OF a] assms(2) show "watchers (world ?s') n = None" by simp
    next
      fix u q assume "watchers (world ?s') u = Some q"
      then have "\<exists>q. watchers (world s) u = Some q"
        using assms(2) by (cases "u = t") (simp_all add: w')
      with D(6) show "u < clients (world ?s')" by (auto simp: w' world_simps)
    next
      fix u q assume a: "watchers (world ?s') u = Some q \<and> q \<in> {W129, W133, W134}"
      show "client (this (world ?s')) = Some u"
      proof (cases "u = t")
        case True
        with D(7) [OF assms(2)] W133 show ?thesis by (simp add: w' world_simps)
      next
        case False
        with a have "watchers (world s) u = Some q" "q \<in> {W129, W133, W134}"
          by (simp_all add: w')
        from D(7) [OF this] show ?thesis by (simp add: w' world_simps)
      qed
    next
      fix u q assume a: "watchers (world ?s') u = Some q \<and> q \<in> {W133, W134}"
      show "u \<in> closed (world ?s')"
      proof (cases "u = t")
        case True
        with D(8) [OF assms(2)] W133 show ?thesis by (simp add: w' world_simps)
      next
        case False
        with a have "watchers (world s) u = Some q" "q \<in> {W133, W134}"
          by (simp_all add: w')
        from D(8) [OF this] show ?thesis by (simp add: w' world_simps)
      qed
    qed
    ultimately show ?thesis by (simp add: inv_def)
  next
    case W134
    with assms(3) have
      w': "w' = (world s)\<lparr>this := (this (world s))\<lparr>client := None\<rparr>,
                          watchers := (watchers (world s))(t \<mapsto> W135)\<rparr>"
      by simp
    have ht: "holder s (Watcher t)"
      using assms(2) W134 by simp
    have shared: "client (this (world s)) = Some t" and closed: "t \<in> closed (world s)"
      using D(7,8) [OF assms(2)] W134 by simp_all
    have "mutex_inv ?s'"
    proof (rule mutex_inv_step [where a = "Watcher t"])
      show "mutex_inv s" using assms(1) by (simp add: inv_def)
      show "holder ?s' b = holder s b" if "b \<noteq> Watcher t" for b
        using that by (rule h) (simp add: w')
      show "Mutex (this (world ?s')) \<and> (holder s (Watcher t) \<or> \<not> Mutex (this (world s)))"
        if "holder ?s' (Watcher t)"
        using mutex_locked [OF assms(1) ht] ht by (simp add: w')
      show "Mutex (this (world ?s')) \<or> holder s (Watcher t) \<or> \<not> Mutex (this (world s))"
        using ht by blast
    qed
    moreover have "pointer_inv ?s'"
      unfolding pointer_inv_def
    proof (intro conjI allI impI)
      fix u assume "live (world ?s') u"
      then have l: "live (world s) u" by (simp add: live_def w')
      from D(1) [OF l] shared have "u = t" by simp
      with l closed show "client (this (world ?s')) = Some u" by (simp add: live_def)
    next
      fix u assume "client (this (world ?s')) = Some u"
      then show "u < clients (world ?s')" by (simp add: w')
    next
      fix j d assume "procs ?s' j = Some (L124 d)"
      show "client (this (world ?s')) = None" by (simp add: w')
    next
      fix j d n assume "procs ?s' j = Some (L128 d n)"
      then have "holder s (Proc j)" by simp
      from mutex_one [OF assms(1) this ht]
      show "client (this (world ?s')) = Some n" and "watchers (world ?s') n = None"
        by simp_all
    next
      fix u q assume "watchers (world ?s') u = Some q"
      then have "\<exists>q. watchers (world s) u = Some q"
        using assms(2) by (cases "u = t") (simp_all add: w')
      with D(6) show "u < clients (world ?s')" by (auto simp: w')
    next
      fix u q assume a: "watchers (world ?s') u = Some q \<and> q \<in> {W129, W133, W134}"
      then have "u \<noteq> t" by (auto simp: w')
      with a have "watchers (world s) u = Some q" "q \<in> {W129, W133, W134}"
        by (simp_all add: w')
      from D(7) [OF this] shared \<open>u \<noteq> t\<close> show "client (this (world ?s')) = Some u"
        by simp
    next
      fix u q assume a: "watchers (world ?s') u = Some q \<and> q \<in> {W133, W134}"
      then have "u \<noteq> t" by (auto simp: w')
      with a have "watchers (world s) u = Some q" "q \<in> {W133, W134}"
        by (simp_all add: w')
      from D(8) [OF this] show "u \<in> closed (world ?s')" by (simp add: w')
    qed
    ultimately show ?thesis by (simp add: inv_def)
  next
    case W135
    with assms(3) have
      w': "w' = (Unlock (world s))\<lparr>watchers := (watchers (world s))(t \<mapsto> W_returned)\<rparr>"
      by simp
    have ht: "holder s (Watcher t)"
      using assms(2) W135 by simp
    have "mutex_inv ?s'"
    proof (rule mutex_inv_step [where a = "Watcher t"])
      show "mutex_inv s" using assms(1) by (simp add: inv_def)
      show "holder ?s' b = holder s b" if "b \<noteq> Watcher t" for b
        using that by (rule h) (simp add: w')
      show "Mutex (this (world ?s')) \<or> holder s (Watcher t) \<or> \<not> Mutex (this (world s))"
        using ht by blast
    qed (simp add: w')
    moreover have "pointer_inv ?s'"
      unfolding pointer_inv_def
    proof (intro conjI allI impI)
      fix u assume "live (world ?s') u"
      then have "live (world s) u" by (simp add: live_def w' world_simps)
      from D(1) [OF this] show "client (this (world ?s')) = Some u" by (simp add: w' world_simps)
    next
      fix u assume "client (this (world ?s')) = Some u"
      then have "client (this (world s)) = Some u" by (simp add: w' world_simps)
      from D(2) [OF this] show "u < clients (world ?s')" by (simp add: w' world_simps)
    next
      fix j d assume "procs ?s' j = Some (L124 d)"
      then have "procs s j = Some (L124 d)" by simp
      from D(3) [OF this] show "client (this (world ?s')) = None" by (simp add: w' world_simps)
    next
      fix j d n assume "procs ?s' j = Some (L128 d n)"
      then have "holder s (Proc j)" by simp
      from mutex_one [OF assms(1) this ht]
      show "client (this (world ?s')) = Some n" and "watchers (world ?s') n = None"
        by simp_all
    next
      fix u q assume "watchers (world ?s') u = Some q"
      then have "\<exists>q. watchers (world s) u = Some q"
        using assms(2) by (cases "u = t") (simp_all add: w')
      with D(6) show "u < clients (world ?s')" by (auto simp: w' world_simps)
    next
      fix u q assume a: "watchers (world ?s') u = Some q \<and> q \<in> {W129, W133, W134}"
      then have "u \<noteq> t" by (auto simp: w')
      with a have "watchers (world s) u = Some q" "q \<in> {W129, W133, W134}"
        by (simp_all add: w')
      from D(7) [OF this] show "client (this (world ?s')) = Some u"
        by (simp add: w' world_simps)
    next
      fix u q assume a: "watchers (world ?s') u = Some q \<and> q \<in> {W133, W134}"
      then have "u \<noteq> t" by (auto simp: w')
      with a have "watchers (world s) u = Some q" "q \<in> {W133, W134}"
        by (simp_all add: w')
      from D(8) [OF this] show "u \<in> closed (world ?s')" by (simp add: w' world_simps)
    qed
    ultimately show ?thesis by (simp add: inv_def)
  next
    case W_returned
    with assms(3) show ?thesis by simp
  qed
qed

lemma inv_world_quiet:
  assumes "inv s" and "procs s' = procs s"
    and "this (world s') = this (world s)" and "clients (world s') = clients (world s)"
    and "watchers (world s') = watchers (world s)"
    and "closed (world s) \<subseteq> closed (world s')"
  shows "inv s'"
proof -
  have h: "holder s' b = holder s b" for b
    by (cases b) (simp_all add: assms(2,5))
  have "mutex_inv s'"
    using assms(1) by (simp add: inv_def mutex_inv_def h assms(3))
  moreover have "pointer_inv s'"
    by (rule pointer_inv_quiet [OF inv_pointer [OF assms(1)]]) (simp_all add: assms(2-6))
  ultimately show ?thesis by (simp add: inv_def)
qed

lemma inv_proc_step:
  assumes "inv s" and "procs s i = Some p" and "proc_step env p (world s) = Some (p', w')"
  shows "inv (s\<lparr>world := w', procs := (procs s)(i \<mapsto> p'), connects := k\<rparr>)"
proof (cases p)
  case (L109 outbound)
  with assms(3) have "w' = world s" "\<not> holds p'"
    by (auto split: option.splits if_splits)
  then show ?thesis
    by (intro inv_proc_quiet [OF assms(1,2)]) auto
next
  case (L119 d)
  with assms(3) have "w' = world s" "\<not> holds p'"
    by (auto split: option.splits)
  then show ?thesis
    by (intro inv_proc_quiet [OF assms(1,2)]) auto
next
  case (L121 d)
  with assms(3) have "\<not> Mutex (this (world s))" "w' = Lock (world s)" "p' = L122 d"
    by (auto split: if_splits)
  with inv_Lock [OF assms(1)] assms(2) L121 show ?thesis by simp
next
  case (L122 d)
  with assms(3) have w: "w' = world s"
    and p': "p' = (case client (this (world s)) of Some sc \<Rightarrow> L139 d sc | None \<Rightarrow> L124 d)"
    by auto
  show ?thesis
  proof (rule inv_proc_quiet [OF assms(1,2)])
    show "holds p" by (simp add: L122)
    show "client (this (world s)) = None" if "p' = L124 d'" for d'
      using that p' by (cases "client (this (world s))") simp_all
    show "p' \<noteq> L128 d' n" for d' n
      using p' by (cases "client (this (world s))") simp_all
  qed (simp_all add: w)
next
  case (L124 d)
  obtain r w1 where c: "connect env (world s) = (r, w1)"
    by (cases "connect env (world s)")
  show ?thesis
  proof (cases r)
    case (Inl err)
    with assms(3) L124 c have "p' = Returned_126 err" "w' = w1" by simp_all
    moreover from connect_Inl c Inl have "this w1 = this (world s)"
      "clients w1 = clients (world s)" "watchers w1 = watchers (world s)"
      "closed w1 = closed (world s)"
      by blast+
    ultimately show ?thesis
      using L124 by (intro inv_proc_quiet [OF assms(1,2)]) auto
  next
    case (Inr new)
    with assms(3) L124 c have p': "p' = L128 d new" "w' = w1" by simp_all
    from connect_Inr c Inr have "new = clients (world s)"
      "this w1 = (this (world s))\<lparr>client := Some new\<rparr>"
      "clients w1 = Suc (clients (world s))" "watchers w1 = watchers (world s)"
      "closed w1 = closed (world s)"
      by blast+
    with inv_connected [OF assms(1), of i d w1 k] assms(2) L124 p' show ?thesis
      by simp
  qed
next
  case (L128 d new)
  with assms(3) have "w' = go_watch new (world s)" "p' = L139 d new" by auto
  with inv_go_watch [OF assms(1)] assms(2) L128 show ?thesis by simp
next
  case (L139 d sc)
  with assms(3) have "w' = Unlock (world s)" "p' = L142 d sc" by auto
  with inv_Unlock [OF assms(1)] assms(2) L139 show ?thesis by simp
next
  case (L142 d sc)
  obtain err w1 where r: "Process_relay env sc d (world s) = (err, w1)"
    by (cases "Process_relay env sc d (world s)")
  with assms(3) L142 have "p' = Returned err" "w' = w1" by simp_all
  moreover from relay_frame [OF r] have "this w1 = this (world s)"
    "clients w1 = clients (world s)" "watchers w1 = watchers (world s)"
    "closed w1 = closed (world s)"
    by simp_all
  ultimately show ?thesis
    by (intro inv_proc_quiet [OF assms(1,2)]) auto
next
  case (Returned err)
  with assms(3) show ?thesis by simp
next
  case (Returned_126 err)
  with assms(3) show ?thesis by simp
qed

lemma inv_step:
  assumes "inv s" and "step env a s = Some s'"
  shows "inv s'"
proof (cases a)
  case (Proc i)
  with assms(2) obtain p p' w' where "procs s i = Some p"
    "proc_step env p (world s) = Some (p', w')"
    and s': "s' = s\<lparr>world := w', procs := (procs s)(i \<mapsto> p'),
                    connects := (if is_L124 p then Suc (connects s) else connects s)\<rparr>"
    by (auto split: option.splits)
  from inv_proc_step [OF assms(1) this(1,2)] show ?thesis
    unfolding s' .
next
  case (Watcher t)
  with assms(2) obtain p w' where "watchers (world s) t = Some p"
    "watcher_step t p (world s) = Some w'" and s': "s' = s\<lparr>world := w'\<rparr>"
    by (auto split: option.splits)
  from inv_watcher_step [OF assms(1) this(1,2)] show ?thesis
    unfolding s' .
next
  case (Closer k)
  with assms(2) obtain p p' w' where "closers s k = Some p"
    and c: "close_step env p (world s) = Some (p', w')"
    and s': "s' = s\<lparr>world := w', closers := (closers s)(k \<mapsto> p')\<rparr>"
    by (auto split: option.splits)
  from c have "this w' = this (world s)" "clients w' = clients (world s)"
    "watchers w' = watchers (world s)" "closed (world s) \<subseteq> closed w'"
    by (cases p; auto)+
  then show ?thesis
    by (intro inv_world_quiet [OF assms(1)]) (simp_all add: s')
next
  case (Dies t)
  with assms(2) have s': "s' = s\<lparr>world := (world s)\<lparr>closed := insert t (closed (world s))\<rparr>\<rparr>"
    by (auto split: if_splits)
  show ?thesis
    by (intro inv_world_quiet [OF assms(1)]) (auto simp: s')
qed

lemma start_inv:
  assumes "start s"
  shows "inv s"
proof -
  from assms have idle: "idle (world s)"
    and procs: "\<And>i p. procs s i = Some p \<Longrightarrow> \<exists>outbound. p = L109 outbound"
    by (auto simp: start_def)
  from idle have nil: "client (this (world s)) = None"
    and closed: "\<And>t. t < clients (world s) \<Longrightarrow> t \<in> closed (world s)"
    and watchers: "\<And>t p. watchers (world s) t = Some p \<Longrightarrow> t < clients (world s) \<and> p = W_returned"
    by (auto simp: idle_def)
  have "\<not> holder s a" for a
  proof (cases a)
    case (Proc i)
    then show ?thesis using procs [of i] by (cases "procs s i") auto
  next
    case (Watcher t)
    then show ?thesis using watchers [of t] by (cases "watchers (world s) t") auto
  qed simp_all
  then have "mutex_inv s"
    by (simp add: mutex_inv_def)
  moreover have "pointer_inv s"
    unfolding pointer_inv_def
  proof (intro conjI allI impI)
    fix t assume "live (world s) t"
    with closed show "client (this (world s)) = Some t" by (auto simp: live_def)
  next
    fix t assume "client (this (world s)) = Some t"
    with nil show "t < clients (world s)" by simp
  next
    fix i d assume "procs s i = Some (L124 d)"
    show "client (this (world s)) = None" by (rule nil)
  next
    fix i d new assume "procs s i = Some (L128 d new)"
    from procs [OF this] show "client (this (world s)) = Some new"
      and "watchers (world s) new = None" by simp_all
  next
    fix t p assume "watchers (world s) t = Some p"
    from watchers [OF this] show "t < clients (world s)" by simp
  next
    fix t p assume a: "watchers (world s) t = Some p \<and> p \<in> {W129, W133, W134}"
    then have "watchers (world s) t = Some p" by simp
    from watchers [OF this] a show "client (this (world s)) = Some t" by auto
  next
    fix t p assume a: "watchers (world s) t = Some p \<and> p \<in> {W133, W134}"
    then have "watchers (world s) t = Some p" by simp
    from watchers [OF this] a show "t \<in> closed (world s)" by auto
  qed
  ultimately show ?thesis by (simp add: inv_def)
qed

lemma run_append:
  "run env (as @ bs) s = (case run env as s of None \<Rightarrow> None | Some s' \<Rightarrow> run env bs s')"
  by (induction as arbitrary: s) (auto split: option.splits)

lemma inv_run:
  assumes "inv s" and "run env sched s = Some s'"
  shows "inv s'"
  using assms
proof (induction sched arbitrary: s)
  case Nil
  then show ?case by simp
next
  case (Cons a as)
  then obtain s1 where "step env a s = Some s1" "run env as s1 = Some s'"
    by (auto split: option.splits)
  with Cons.IH inv_step [OF Cons.prems(1)] show ?case by blast
qed

subsection \<open>One connect while the ssh client stays open\<close>


text \<open>
  In a state that a run from a start reaches, the component is idle exactly when there
  is no shared ssh client and the mutex is free.
\<close>

lemma idle_iff:
  assumes "inv s"
  shows "idle (world s) \<longleftrightarrow> client (this (world s)) = None \<and> \<not> Mutex (this (world s))"
proof
  assume "idle (world s)"
  then show "client (this (world s)) = None \<and> \<not> Mutex (this (world s))"
    by (simp add: idle_def)
next
  assume a: "client (this (world s)) = None \<and> \<not> Mutex (this (world s))"
  note p = inv_pointer [OF assms]
  have 1: "t \<in> closed (world s)" if "t < clients (world s)" for t
  proof (rule ccontr)
    assume "t \<notin> closed (world s)"
    with that have "live (world s) t" by (simp add: live_def)
    from pointer_invD(1) [OF p this] a show False by simp
  qed
  have 2: "t < clients (world s) \<and> q = W_returned" if w: "watchers (world s) t = Some q" for t q
  proof
    from pointer_invD(6) [OF p w] show "t < clients (world s)" .
    show "q = W_returned"
    proof (cases q)
      case W129
      with pointer_invD(7) [OF p w] a show ?thesis by simp
    next
      case W133
      with pointer_invD(7) [OF p w] a show ?thesis by simp
    next
      case W134
      with pointer_invD(7) [OF p w] a show ?thesis by simp
    next
      case W135
      with w have "holder s (Watcher t)" by simp
      from mutex_locked [OF assms this] a show ?thesis by simp
    next
      case W_returned
      then show ?thesis .
    qed
  qed
  from a 1 2 show "idle (world s)" unfolding idle_def by blast
qed

















lemma close_step_this:
  assumes "close_step env p w = Some (p', w')"
  shows "this w' = this w"
  using assms by (cases p) auto

subsection \<open>Progress\<close>







lemma proc_step_rank:
  assumes "proc_step env p w = Some (p', w')"
  shows "rank p' < rank p"
  using assms
  by (cases p) (auto split: option.splits if_splits prod.splits sum.splits)




text \<open>
  C4, as the code has it. In every run from a component that is idle, a step that
  takes the shared pointer from an ssh client to \<^verbatim>\<open>nil\<close> is the assignment of line 134
  by the watcher of that ssh client, made while the mutex is locked and that watcher
  is the one actor that holds it. A step of \<^verbatim>\<open>Close\<close> changes neither the pointer nor
  the mutex.
\<close>

theorem pointer_cleared_by_watcher_only:
  assumes "start s0" and "run env sched s0 = Some s" and "step env a s = Some s'"
  shows "(\<forall>t. client (this (world s)) = Some t \<and> client (this (world s')) = None \<longrightarrow>
            a = Watcher t \<and> watchers (world s) t = Some W134 \<and>
            Mutex (this (world s)) \<and> (\<forall>b. holder s b \<longleftrightarrow> b = Watcher t)) \<and>
         (\<forall>k. a = Closer k \<longrightarrow> this (world s') = this (world s))"
proof (intro conjI allI impI)
  have inv: "inv s"
    using inv_run [OF start_inv [OF assms(1)] assms(2)] .
  {
    fix k assume "a = Closer k"
    with assms(3) obtain p p' w' where "close_step env p (world s) = Some (p', w')"
      "world s' = w'"
      by (auto split: option.splits)
    with close_step_this show "this (world s') = this (world s)"
      by blast
  }
  fix t assume a: "client (this (world s)) = Some t \<and> client (this (world s')) = None"
  have w: "\<exists>u. a = Watcher u \<and> watchers (world s) u = Some W134"
  proof (cases a)
    case (Proc i)
    with assms(3) obtain p p' w' where p: "proc_step env p (world s) = Some (p', w')"
      and w': "world s' = w'"
      by (auto split: option.splits)
    have "client (this w') \<noteq> None \<or> client (this w') = client (this (world s))"
    proof (cases p)
      case (L124 d)
      obtain r w1 where c: "connect env (world s) = (r, w1)"
        by (cases "connect env (world s)")
      with p L124 have w1: "w' = w1" by (cases r) simp_all
      show ?thesis
      proof (cases r)
        case (Inl err)
        with connect_Inl c w1 show ?thesis by metis
      next
        case (Inr new)
        with connect_Inr [of env "world s" new w1] c w1 show ?thesis by simp
      qed
    next
      case (L142 d sc)
      obtain err w1 where r: "Process_relay env sc d (world s) = (err, w1)"
        by (cases "Process_relay env sc d (world s)")
      with p L142 have "w' = w1" by simp
      with relay_frame [OF r] show ?thesis by simp
    qed (use p in \<open>auto simp: world_simps split: if_splits\<close>)
    with a w' show ?thesis by auto
  next
    case (Watcher u)
    with assms(3) obtain p w' where p: "watchers (world s) u = Some p"
      and st: "watcher_step u p (world s) = Some w'" and w': "s' = s\<lparr>world := w'\<rparr>"
      by (auto split: option.splits)
    from a w' have "client (this (world s)) = Some t" "client (this w') = None"
      by simp_all
    with st have "p = W134"
      by (cases p) (auto simp: world_simps split: if_splits)
    with Watcher p show ?thesis by simp
  next
    case (Closer k)
    with assms(3) obtain p p' w' where "close_step env p (world s) = Some (p', w')"
      "world s' = w'"
      by (auto split: option.splits)
    with close_step_this have "this (world s') = this (world s)"
      by blast
    with a show ?thesis by auto
  next
    case (Dies u)
    with assms(3) a show ?thesis by (auto split: if_splits)
  qed
  then obtain u where u: "a = Watcher u" "watchers (world s) u = Some W134"
    by blast
  from pointer_invD(7) [OF inv_pointer [OF inv] u(2)] a have "u = t" by simp
  with u show "a = Watcher t" and "watchers (world s) t = Some W134" by simp_all
  from u \<open>u = t\<close> have h: "holder s (Watcher t)" by simp
  from mutex_locked [OF inv h] show "Mutex (this (world s))" .
  fix b
  from mutex_one [OF inv h] h show "holder s b \<longleftrightarrow> b = Watcher t" by blast
qed

subsection \<open>Example runs\<close>

lemma start_two_requests: "start two_requests"
  by (auto simp: start_def idle_def two_requests_def example_World_simps split: if_splits)










lemma run_close:
  "run good_Env close_schedule two_requests \<noteq> None"
  "map_option (client \<circ> this \<circ> world) (run good_Env close_schedule two_requests) = Some (Some 0)"
  "map_option (client \<circ> this \<circ> world) (run good_Env (close_schedule @ [Watcher 0]) two_requests) =
     Some None"
  by code_simp+

theorem pointer_cleared_by_watcher_only_witness:
  "start two_requests \<and>
   (\<exists>s s'. run good_Env close_schedule two_requests = Some s \<and>
           step good_Env (Watcher 0) s = Some s' \<and>
           client (this (world s)) = Some 0 \<and> client (this (world s')) = None \<and>
           watchers (world s) 0 = Some W134 \<and> Mutex (this (world s)) \<and>
           holder s (Watcher 0) \<and> \<not> holder s (Proc 0))"
proof
  show st: "start two_requests"
    by (rule start_two_requests)
  from run_close(1) obtain s where r: "run good_Env close_schedule two_requests = Some s"
    by blast
  from run_close(3) r obtain s' where s': "step good_Env (Watcher 0) s = Some s'"
    by (auto simp: run_append split: option.splits)
  from run_close(2,3) r s' have c: "client (this (world s)) = Some 0"
    "client (this (world s')) = None"
    by (simp_all add: run_append)
  from pointer_cleared_by_watcher_only [OF st r s'] c
  have "watchers (world s) 0 = Some W134 \<and> Mutex (this (world s)) \<and>
      (\<forall>b. holder s b \<longleftrightarrow> b = Watcher 0)"
    by blast
  then have "watchers (world s) 0 = Some W134" "Mutex (this (world s))"
    "holder s (Watcher 0)" "\<not> holder s (Proc 0)"
    by (simp_all del: holder.simps)
  with r s' c show "\<exists>s s'. run good_Env close_schedule two_requests = Some s \<and>
           step good_Env (Watcher 0) s = Some s' \<and>
           client (this (world s)) = Some 0 \<and> client (this (world s')) = None \<and>
           watchers (world s) 0 = Some W134 \<and> Mutex (this (world s)) \<and>
           holder s (Watcher 0) \<and> \<not> holder s (Proc 0)"
    by blast
qed

lemma connect_first_attempt:
  assumes "Dial env (dials w) (server (this w)) = Inr conn"
    and "NewClientConn env conn (Address (server (this w)))
           \<lparr>cc_User = username (this w), cc_Auth = auth (this w),
            cc_HostKeyCallback = hostKeyCallback (this w)\<rparr> = None"
  shows "connect env w =
           (Inr (clients w),
            w\<lparr>dials := Suc (dials w), clients := Suc (clients w),
              this := (this w)\<lparr>client := Some (clients w)\<rparr>\<rparr>)"
proof -
  have "ExponentialBackoff_On 2 100 Sleep (dial_once env) w = (Inr conn, w\<lparr>dials := Suc (dials w)\<rparr>)"
    using assms(1) by (simp add: three_attempts dial_once_def)
  with assms(2) show ?thesis
    by (simp add: connect_def Let_def)
qed

lemma Mutex_example_World:
  "(this example_World)\<lparr>client := c, Mutex := False\<rparr> = (this example_World)\<lparr>client := c\<rparr>"
  by (simp add: example_World_def Init_example) (simp add: Init_start_def zero_Client_def)

lemma Process_connected:
  "Process good_Env (Some example_Target) example_World = Some (None, connected_World)"
proof -
  have v: "IsValid good_Env (Target example_Target)"
    "Network (Target example_Target) = Network_TCP"
    by (simp_all add: good_Env_def example_Env_def example_Target_def)
  have c: "connect good_Env (Lock example_World) =
      (Inr 0, (Lock example_World)\<lparr>dials := 1, clients := 1,
                 this := (this (Lock example_World))\<lparr>client := Some 0\<rparr>\<rparr>)"
    using connect_first_attempt [of good_Env "Lock example_World" 0]
    by (simp add: good_Env_def example_Env_def always_succeeds_def handshake_ok_def
          example_World_simps Lock_simps)
  have a: "Process_acquire good_Env example_World =
      Some (Inr 0, example_World\<lparr>this := (this example_World)\<lparr>client := Some 0\<rparr>,
                     dials := 1, clients := 1, watchers := [0 \<mapsto> W129]\<rparr>)"
    by (simp add: Process_acquire_def example_World_simps Let_def Lock_simps c)
       (simp add: Lock_def Unlock_def go_watch_def Mutex_example_World example_World_simps)
  show ?thesis
    by (simp add: Process_def v a Process_relay_def Let_def)
       (simp add: good_Env_def example_Env_def connected_World_def example_World_simps)
qed

text \<open>
  The claim C4 says that \<^verbatim>\<open>Close\<close> too takes the shared pointer to \<^verbatim>\<open>nil\<close>, holding the
  mutex. After a call of \<^verbatim>\<open>Process\<close> that connected, \<^verbatim>\<open>Close\<close> closes the shared ssh
  client and returns: the pointer still names that ssh client, and the mutex was
  never taken.
\<close>

theorem Close_leaves_pointer_counterexample:
  "Process good_Env (Some example_Target) example_World = Some (None, connected_World) \<and>
   client (this connected_World) = Some 0 \<and> \<not> Mutex (this connected_World) \<and>
   Close good_Env connected_World = (None, connected_World\<lparr>closed := {0}\<rparr>) \<and>
   client (this (snd (Close good_Env connected_World))) = Some 0 \<and>
   \<not> Mutex (this (snd (Close good_Env connected_World)))"
proof -
  have "client (this connected_World) = Some 0" "\<not> Mutex (this connected_World)"
    "closed connected_World = {}"
    by (simp_all add: connected_World_def example_World_simps)
  moreover from this have "Close good_Env connected_World = (None, connected_World\<lparr>closed := {0}\<rparr>)"
    by (simp add: Close_def good_Env_def example_Env_def)
  ultimately show ?thesis
    using Process_connected by simp
qed

end
